theory Spec2Isabelle
  imports Main "HOL-Library.AList"
begin

section \<open>Data model (types.ts)\<close>

text \<open>
  \<^verbatim>\<open>ComponentType = "client" | "server" | "universal"\<close> and the \<^verbatim>\<open>FileNode\<close> object type.
  The optional field \<^verbatim>\<open>type?\<close> is an option.
\<close>

datatype ComponentType = Client | Server | Universal

record FileNode =
  filePath :: string
  isClient :: bool
  "imports" :: "string list"
  type :: "ComponentType option"

text \<open>
  A JavaScript \<^verbatim>\<open>Map\<close> iterates in insertion order and has unique keys, so it is an
  association list: \<^verbatim>\<open>get\<close> is \<^const>\<open>map_of\<close>, \<^verbatim>\<open>set\<close> is \<^const>\<open>AList.update\<close> (replace
  in place, or append a new key at the end), \<^verbatim>\<open>delete\<close> is \<^const>\<open>AList.delete\<close>.
  A JavaScript \<^verbatim>\<open>Set\<close> is a list without repetitions, \<^verbatim>\<open>add\<close> appending a new element.
\<close>

type_synonym NodeStore = "(string \<times> FileNode) list"

definition has :: "('k \<times> 'v) list \<Rightarrow> 'k \<Rightarrow> bool" where
  "has m k = (map_of m k \<noteq> None)"

definition set_add :: "'a \<Rightarrow> 'a list \<Rightarrow> 'a list" where
  "set_add x s = (if x \<in> set s then s else s @ [x])"

text \<open>
  The node store of the engine: keys are unique (it is a \<^verbatim>\<open>Map\<close>) and every node is
  stored under its own \<^verbatim>\<open>filePath\<close>, as \<^verbatim>\<open>nodes.set(filePath, { filePath, ... })\<close> does.
\<close>

definition wf_store :: "NodeStore \<Rightarrow> bool" where
  "wf_store nodes =
     (distinct (map fst nodes) \<and> list_all (\<lambda>(fp, node). filePath node = fp) nodes)"

section \<open>The classifier (classify.ts)\<close>

definition getClientEntries :: "NodeStore \<Rightarrow> string list" where
  "getClientEntries nodes = map filePath (filter isClient (map snd nodes))"

text \<open>
  \<^verbatim>\<open>visit\<close> is the recursive closure of \<^verbatim>\<open>getClientReachable\<close>; the set
  \<^verbatim>\<open>clientReachable\<close> it mutates is threaded through. \<open>visit_imports\<close> is its
  \<^verbatim>\<open>for (const imp of node.imports)\<close> loop.
\<close>

function visit :: "NodeStore \<Rightarrow> string \<Rightarrow> string list \<Rightarrow> string list"
  and visit_imports :: "NodeStore \<Rightarrow> string list \<Rightarrow> string list \<Rightarrow> string list"
where
  "visit nodes fp clientReachable =
     (if fp \<in> set clientReachable then clientReachable
      else (case map_of nodes fp of
              None \<Rightarrow> clientReachable @ [fp]
            | Some node \<Rightarrow> visit_imports nodes (imports node) (clientReachable @ [fp])))"
| "visit_imports nodes [] clientReachable = clientReachable"
| "visit_imports nodes (imp # rest) clientReachable =
     visit_imports nodes rest
       (if has nodes imp then visit nodes imp clientReachable else clientReachable)"
  by pat_completeness auto

lemma visit_mono_dom:
  "visit_visit_imports_dom (Inl (nodes, fp, vis)) \<Longrightarrow> set vis \<subseteq> set (visit nodes fp vis)"
  "visit_visit_imports_dom (Inr (nodes, imps, vis)) \<Longrightarrow>
     set vis \<subseteq> set (visit_imports nodes imps vis)"
proof (induction nodes fp vis and nodes imps vis rule: visit_visit_imports.pinduct)
  case (1 nodes fp vis)
  then show ?case
    by (auto simp: visit.psimps split: option.splits)
next
  case (2 nodes vis)
  then show ?case by (simp add: visit_imports.psimps)
next
  case (3 nodes imp rest vis)
  then show ?case
    by (auto simp: visit_imports.psimps split: if_splits)
qed

text \<open>
  The traversal's measure: the number of node keys not yet marked, then the length of
  the import list still to be walked.
\<close>

definition visit_measure ::
  "(NodeStore \<times> string \<times> string list) + (NodeStore \<times> string list \<times> string list)
     \<Rightarrow> nat \<times> nat" where
  "visit_measure a = (case a of
      Inl (nodes, fp, vis) \<Rightarrow> (card (fst ` set nodes - set vis), 0)
    | Inr (nodes, imps, vis) \<Rightarrow> (card (fst ` set nodes - set vis), Suc (length imps)))"

lemma card_unvisited_mono:
  "set vis \<subseteq> set vis' \<Longrightarrow>
     card (fst ` set nodes - set vis') \<le> card (fst ` set nodes - set vis)"
  by (rule card_mono) auto

lemma card_unvisited_less:
  "fp \<notin> set vis \<Longrightarrow> (fp, n) \<in> set nodes \<Longrightarrow>
     card (fst ` set nodes - set (vis @ [fp])) < card (fst ` set nodes - set vis)"
  by (rule psubset_card_mono) force+

lemma visit_total: "All visit_visit_imports_dom"
proof (relation "inv_image (less_than <*lex*> less_than) visit_measure")
  show "wf (inv_image (less_than <*lex*> less_than) visit_measure)"
    by (intro wf_inv_image wf_lex_prod wf_less_than)
next
  fix nodes :: NodeStore and fp vis x2
  assume "fp \<notin> set vis" "map_of nodes fp = Some x2"
  then show "(Inr (nodes, imports x2, vis @ [fp]), Inl (nodes, fp, vis))
      \<in> inv_image (less_than <*lex*> less_than) visit_measure"
    using card_unvisited_less[of fp vis x2 nodes]
    by (simp add: visit_measure_def map_of_SomeD)
next
  fix nodes :: NodeStore and imp rest vis
  show "(Inl (nodes, imp, vis), Inr (nodes, imp # rest, vis))
      \<in> inv_image (less_than <*lex*> less_than) visit_measure"
    by (simp add: visit_measure_def)
next
  fix nodes :: NodeStore and imp rest vis
  assume "has nodes imp \<Longrightarrow> visit_visit_imports_dom (Inl (nodes, imp, vis))"
  then have "set vis \<subseteq> set (if has nodes imp then visit nodes imp vis else vis)"
    using visit_mono_dom(1)[of nodes imp vis] by auto
  from card_unvisited_mono[OF this, of nodes]
  show "(Inr (nodes, rest, if has nodes imp then visit nodes imp vis else vis),
         Inr (nodes, imp # rest, vis))
      \<in> inv_image (less_than <*lex*> less_than) visit_measure"
    by (auto simp: visit_measure_def)
qed

termination visit
  by (rule visit_total)

declare visit.simps [simp del]

definition getClientReachable :: "NodeStore \<Rightarrow> string list \<Rightarrow> string list" where
  "getClientReachable nodes clientEntries =
     fold (\<lambda>entry clientReachable. visit nodes entry clientReachable) clientEntries []"

definition initNodeTypes :: "NodeStore \<Rightarrow> string list \<Rightarrow> (string \<times> ComponentType) list" where
  "initNodeTypes nodes clientReachable =
     fold (\<lambda>fp types. AList.update fp (if fp \<in> set clientReachable then Client else Server) types)
       (map fst nodes) []"

text \<open>
  One step of \<^verbatim>\<open>collectImporters\<close>: create the importer set of \<open>imp\<close> when it is
  missing, then add \<open>fp\<close> to it.
\<close>

definition addImporter ::
  "string \<Rightarrow> string \<Rightarrow> (string \<times> string list) list \<Rightarrow> (string \<times> string list) list" where
  "addImporter fp imp importers =
     (let importers' = (if \<not> has importers imp then AList.update imp [] importers else importers)
      in case map_of importers' imp of
           None \<Rightarrow> importers'
         | Some s \<Rightarrow> AList.update imp (set_add fp s) importers')"

definition collectImporters :: "NodeStore \<Rightarrow> (string \<times> string list) list" where
  "collectImporters nodes =
     fold (\<lambda>(fp, node) importers. fold (addImporter fp) (imports node) importers) nodes []"

fun isUniversalType_loop ::
  "(string \<times> ComponentType) list \<Rightarrow> string list \<Rightarrow> bool \<Rightarrow> bool \<Rightarrow> bool" where
  "isUniversalType_loop types [] hasClient hasServer = False"
| "isUniversalType_loop types (importer # rest) hasClient hasServer =
     (let t = map_of types importer;
          hasClient' = (if t = Some Client then True else hasClient);
          hasServer' = (if t = Some Server then True else hasServer)
      in if hasClient' \<and> hasServer' then True
         else isUniversalType_loop types rest hasClient' hasServer')"

definition isUniversalType :: "(string \<times> ComponentType) list \<Rightarrow> string list \<Rightarrow> bool" where
  "isUniversalType types importers = isUniversalType_loop types importers False False"

definition computeUniversalSet ::
  "NodeStore \<Rightarrow> (string \<times> string list) list \<Rightarrow> (string \<times> ComponentType) list \<Rightarrow> string list"
  where
  "computeUniversalSet nodes importers types =
     fold (\<lambda>(fp, node) universal.
             if isClient node then universal
             else (case map_of importers fp of
                     None \<Rightarrow> universal
                   | Some from \<Rightarrow>
                       if isUniversalType types from then set_add fp universal else universal))
       nodes []"

definition computeComponentTypes :: "NodeStore \<Rightarrow> (string \<times> ComponentType) list" where
  "computeComponentTypes nodes =
     (let clientEntries = getClientEntries nodes;
          clientReachable = getClientReachable nodes clientEntries;
          types = initNodeTypes nodes clientReachable;
          importers = collectImporters nodes;
          universalSet = computeUniversalSet nodes importers types
      in fold (\<lambda>fp types. AList.update fp Universal types) universalSet types)"

text \<open>Steps 1 to 3 of \<^verbatim>\<open>computeComponentTypes\<close>: the provisional (baseline) typing.\<close>

definition baselineTypes :: "NodeStore \<Rightarrow> (string \<times> ComponentType) list" where
  "baselineTypes nodes =
     initNodeTypes nodes (getClientReachable nodes (getClientEntries nodes))"

section \<open>The classifier on a store of objects\<close>

text \<open>
  classify.ts works on objects: the \<^verbatim>\<open>Map\<close> of nodes it is handed, and the sets and maps
  it creates with \<^verbatim>\<open>new Set()\<close> and \<^verbatim>\<open>new Map()\<close> and fills with \<^verbatim>\<open>add\<close> and \<^verbatim>\<open>set\<close>.
  Here the objects live in a store, at addresses, and every function of classify.ts
  takes the store and returns it as it has left it. An object is a map of nodes (with
  its node objects and their fields), a set of strings, a map of types, or a map of
  importer sets, which holds its sets by address. At run time a \<^verbatim>\<open>ComponentType\<close> is a
  string, and the map of types holds strings.
\<close>

datatype Obj =
    Unallocated
  | NodesMap NodeStore
  | StringSet "string list"
  | TypesMap "(string \<times> string) list"
  | ImportersMap "(string \<times> nat) list"

record Heap =
  cells :: "nat \<Rightarrow> Obj"
  nextAddr :: nat

definition emptyHeap :: Heap where
  "emptyHeap = \<lparr>cells = (\<lambda>a. Unallocated), nextAddr = 0\<rparr>"

text \<open>
  A write replaces the object at an address; \<^verbatim>\<open>new\<close> puts an object at the next free
  address. A read of an address that holds an object of another kind, which the types
  of TypeScript exclude, gives the empty collection.
\<close>

definition put :: "nat \<Rightarrow> Obj \<Rightarrow> Heap \<Rightarrow> Heap" where
  "put a obj h = h\<lparr>cells := (cells h)(a := obj)\<rparr>"

definition new :: "Obj \<Rightarrow> Heap \<Rightarrow> Heap" where
  "new obj h = (put (nextAddr h) obj h)\<lparr>nextAddr := Suc (nextAddr h)\<rparr>"

definition nodesAt :: "Heap \<Rightarrow> nat \<Rightarrow> NodeStore" where
  "nodesAt h a = (case cells h a of NodesMap nodes \<Rightarrow> nodes | _ \<Rightarrow> [])"

definition setAt :: "Heap \<Rightarrow> nat \<Rightarrow> string list" where
  "setAt h a = (case cells h a of StringSet s \<Rightarrow> s | _ \<Rightarrow> [])"

definition typesAt :: "Heap \<Rightarrow> nat \<Rightarrow> (string \<times> string) list" where
  "typesAt h a = (case cells h a of TypesMap types \<Rightarrow> types | _ \<Rightarrow> [])"

definition importersAt :: "Heap \<Rightarrow> nat \<Rightarrow> (string \<times> nat) list" where
  "importersAt h a = (case cells h a of ImportersMap importers \<Rightarrow> importers | _ \<Rightarrow> [])"

text \<open>\<^verbatim>\<open>Set.add\<close>, and \<^verbatim>\<open>Map.set\<close> on a map of types and on a map of importer sets.\<close>

definition setAdd :: "nat \<Rightarrow> string \<Rightarrow> Heap \<Rightarrow> Heap" where
  "setAdd a x h = put a (StringSet (set_add x (setAt h a))) h"

definition typesSet :: "nat \<Rightarrow> string \<Rightarrow> string \<Rightarrow> Heap \<Rightarrow> Heap" where
  "typesSet a k v h = put a (TypesMap (AList.update k v (typesAt h a))) h"

definition importersSet :: "nat \<Rightarrow> string \<Rightarrow> nat \<Rightarrow> Heap \<Rightarrow> Heap" where
  "importersSet a k v h = put a (ImportersMap (AList.update k v (importersAt h a))) h"

text \<open>
  \<^verbatim>\<open>visit\<close> and its loop over \<^verbatim>\<open>node.imports\<close>; \<open>nodes\<close> and \<open>clientReachable\<close> are the
  addresses of the map and of the set that the closure has captured.
\<close>

function visit_h :: "nat \<Rightarrow> nat \<Rightarrow> string \<Rightarrow> Heap \<Rightarrow> Heap"
  and visit_imports_h :: "nat \<Rightarrow> nat \<Rightarrow> string list \<Rightarrow> Heap \<Rightarrow> Heap"
where
  "visit_h nodes clientReachable fp h =
     (if fp \<in> set (setAt h clientReachable) then h
      else (case map_of (nodesAt (setAdd clientReachable fp h) nodes) fp of
              None \<Rightarrow> setAdd clientReachable fp h
            | Some node \<Rightarrow>
                visit_imports_h nodes clientReachable (imports node)
                  (setAdd clientReachable fp h)))"
| "visit_imports_h nodes clientReachable [] h = h"
| "visit_imports_h nodes clientReachable (imp # rest) h =
     visit_imports_h nodes clientReachable rest
       (if has (nodesAt h nodes) imp then visit_h nodes clientReachable imp h else h)"
  by pat_completeness auto

text \<open>
  The number of keys of the map of nodes that are not in the set. A call of \<^verbatim>\<open>add\<close>
  does not raise it, and lowers it when it adds a key of the map.
\<close>

definition unvisited :: "nat \<Rightarrow> nat \<Rightarrow> Heap \<Rightarrow> nat" where
  "unvisited nodes clientReachable h =
     card (fst ` set (nodesAt h nodes) - set (setAt h clientReachable))"

lemma cells_put: "cells (put a obj h) b = (if b = a then obj else cells h b)"
  by (simp add: put_def)

lemma nodesAt_setAdd:
  "nodesAt (setAdd a x h) b = (if b = a then [] else nodesAt h b)"
  by (simp add: nodesAt_def setAdd_def cells_put)

lemma setAt_setAdd:
  "setAt (setAdd a x h) b = (if b = a then set_add x (setAt h a) else setAt h b)"
  by (simp add: setAt_def setAdd_def cells_put)

lemma unvisited_setAdd:
  "unvisited nodes clientReachable (setAdd clientReachable fp h)
     \<le> unvisited nodes clientReachable h"
proof (cases "clientReachable = nodes")
  case True
  then show ?thesis by (simp add: unvisited_def nodesAt_setAdd)
next
  case False
  have "fst ` set (nodesAt h nodes) - set (set_add fp (setAt h clientReachable))
      \<subseteq> fst ` set (nodesAt h nodes) - set (setAt h clientReachable)"
    by (auto simp: set_add_def)
  from card_mono[OF _ this] show ?thesis
    using False by (simp add: unvisited_def nodesAt_setAdd setAt_setAdd)
qed

lemma unvisited_setAdd_less:
  assumes "fp \<notin> set (setAt h clientReachable)"
    and "map_of (nodesAt (setAdd clientReachable fp h) nodes) fp = Some node"
  shows "unvisited nodes clientReachable (setAdd clientReachable fp h)
           < unvisited nodes clientReachable h"
proof -
  have ne: "clientReachable \<noteq> nodes"
    using assms(2) by (auto simp: nodesAt_setAdd)
  then have n: "nodesAt (setAdd clientReachable fp h) nodes = nodesAt h nodes"
    by (simp add: nodesAt_setAdd)
  have s: "setAt (setAdd clientReachable fp h) clientReachable = setAt h clientReachable @ [fp]"
    using assms(1) by (simp add: setAt_setAdd set_add_def)
  have "fp \<in> fst ` set (nodesAt h nodes)"
    using assms(2) n by (metis map_of_SomeD fst_conv image_eqI)
  then have "fst ` set (nodesAt h nodes) - set (setAt h clientReachable @ [fp])
      \<subset> fst ` set (nodesAt h nodes) - set (setAt h clientReachable)"
    using assms(1) by auto
  then show ?thesis
    unfolding unvisited_def n s by (intro psubset_card_mono) auto
qed

lemma visit_h_unvisited_dom:
  "visit_h_visit_imports_h_dom (Inl (nodes, clientReachable, fp, h)) \<Longrightarrow>
     unvisited nodes clientReachable (visit_h nodes clientReachable fp h)
       \<le> unvisited nodes clientReachable h"
  "visit_h_visit_imports_h_dom (Inr (nodes, clientReachable, imps, h)) \<Longrightarrow>
     unvisited nodes clientReachable (visit_imports_h nodes clientReachable imps h)
       \<le> unvisited nodes clientReachable h"
proof (induction nodes clientReachable fp h and nodes clientReachable imps h
    rule: visit_h_visit_imports_h.pinduct)
  case (1 nodes clientReachable fp h)
  show ?case
  proof (cases "fp \<in> set (setAt h clientReachable)")
    case True
    then show ?thesis using 1(1) by (simp add: visit_h.psimps)
  next
    case False
    show ?thesis
    proof (cases "map_of (nodesAt (setAdd clientReachable fp h) nodes) fp")
      case None
      then show ?thesis
        using 1(1) False unvisited_setAdd[of nodes clientReachable fp h]
        by (simp add: visit_h.psimps)
    next
      case (Some node)
      from 1(2)[OF False Some] unvisited_setAdd[of nodes clientReachable fp h]
      show ?thesis using 1(1) False Some by (simp add: visit_h.psimps)
    qed
  qed
next
  case (2 nodes clientReachable h)
  then show ?case by (simp add: visit_imports_h.psimps)
next
  case (3 nodes clientReachable imp rest h)
  show ?case
  proof (cases "has (nodesAt h nodes) imp")
    case True
    from 3(2)[OF True] 3(3) True show ?thesis
      using 3(1) by (simp add: visit_imports_h.psimps)
  next
    case False
    from 3(3) False show ?thesis using 3(1) by (simp add: visit_imports_h.psimps)
  qed
qed

definition visit_h_measure ::
  "(nat \<times> nat \<times> string \<times> Heap) + (nat \<times> nat \<times> string list \<times> Heap) \<Rightarrow> nat \<times> nat" where
  "visit_h_measure a = (case a of
      Inl (nodes, clientReachable, fp, h) \<Rightarrow> (unvisited nodes clientReachable h, 0)
    | Inr (nodes, clientReachable, imps, h) \<Rightarrow>
        (unvisited nodes clientReachable h, Suc (length imps)))"

lemma visit_h_total: "All visit_h_visit_imports_h_dom"
proof (relation "inv_image (less_than <*lex*> less_than) visit_h_measure")
  show "wf (inv_image (less_than <*lex*> less_than) visit_h_measure)"
    by (intro wf_inv_image wf_lex_prod wf_less_than)
next
  fix nodes clientReachable :: nat and fp :: string and h :: Heap and x2
  assume "fp \<notin> set (setAt h clientReachable)"
    "map_of (nodesAt (setAdd clientReachable fp h) nodes) fp = Some x2"
  then show "(Inr (nodes, clientReachable, imports x2, setAdd clientReachable fp h),
              Inl (nodes, clientReachable, fp, h))
      \<in> inv_image (less_than <*lex*> less_than) visit_h_measure"
    using unvisited_setAdd_less[of fp h clientReachable nodes x2]
    by (simp add: visit_h_measure_def)
next
  fix nodes clientReachable :: nat and imp :: string and rest :: "string list" and h :: Heap
  show "(Inl (nodes, clientReachable, imp, h), Inr (nodes, clientReachable, imp # rest, h))
      \<in> inv_image (less_than <*lex*> less_than) visit_h_measure"
    by (simp add: visit_h_measure_def)
next
  fix nodes clientReachable :: nat and imp :: string and rest :: "string list" and h :: Heap
  assume "has (nodesAt h nodes) imp \<Longrightarrow>
      visit_h_visit_imports_h_dom (Inl (nodes, clientReachable, imp, h))"
  then have "unvisited nodes clientReachable
       (if has (nodesAt h nodes) imp then visit_h nodes clientReachable imp h else h)
     \<le> unvisited nodes clientReachable h"
    using visit_h_unvisited_dom(1)[of nodes clientReachable imp h] by auto
  then show "(Inr (nodes, clientReachable, rest,
           if has (nodesAt h nodes) imp then visit_h nodes clientReachable imp h else h),
         Inr (nodes, clientReachable, imp # rest, h))
      \<in> inv_image (less_than <*lex*> less_than) visit_h_measure"
    by (auto simp: visit_h_measure_def)
qed

termination visit_h
  by (rule visit_h_total)

declare visit_h.simps [simp del]

text \<open>
  The functions of classify.ts. A function that creates a set or a map returns its
  address with the store. A \<^verbatim>\<open>for\<close> loop runs over the entries its collection has when
  the loop starts. The arrays of \<^verbatim>\<open>getClientEntries\<close> are created by \<^verbatim>\<open>Array.from\<close>,
  \<^verbatim>\<open>filter\<close> and \<^verbatim>\<open>map\<close> and are only read afterwards; they are kept as values.
\<close>

definition getClientEntries_h :: "nat \<Rightarrow> Heap \<Rightarrow> string list" where
  "getClientEntries_h nodes h = map filePath (filter isClient (map snd (nodesAt h nodes)))"

definition getClientReachable_h :: "nat \<Rightarrow> string list \<Rightarrow> Heap \<Rightarrow> nat \<times> Heap" where
  "getClientReachable_h nodes clientEntries h =
     (let clientReachable = nextAddr h;
          h1 = new (StringSet []) h
      in (clientReachable,
          fold (\<lambda>entry h. visit_h nodes clientReachable entry h) clientEntries h1))"

definition initNodeTypes_h :: "nat \<Rightarrow> nat \<Rightarrow> Heap \<Rightarrow> nat \<times> Heap" where
  "initNodeTypes_h nodes clientReachable h =
     (let types = nextAddr h;
          h1 = new (TypesMap []) h
      in (types,
          fold (\<lambda>fp h. typesSet types fp
                          (if fp \<in> set (setAt h clientReachable) then ''client'' else ''server'') h)
            (map fst (nodesAt h1 nodes)) h1))"

definition addImporter_h :: "nat \<Rightarrow> string \<Rightarrow> string \<Rightarrow> Heap \<Rightarrow> Heap" where
  "addImporter_h importers fp imp h =
     (let h1 = (if \<not> has (importersAt h importers) imp
                then importersSet importers imp (nextAddr h) (new (StringSet []) h)
                else h)
      in case map_of (importersAt h1 importers) imp of
           None \<Rightarrow> h1
         | Some s \<Rightarrow> setAdd s fp h1)"

definition collectImporters_h :: "nat \<Rightarrow> Heap \<Rightarrow> nat \<times> Heap" where
  "collectImporters_h nodes h =
     (let importers = nextAddr h;
          h1 = new (ImportersMap []) h
      in (importers,
          fold (\<lambda>(fp, node) h. fold (addImporter_h importers fp) (imports node) h)
            (nodesAt h1 nodes) h1))"

fun isUniversalType_h_loop ::
  "(string \<times> string) list \<Rightarrow> string list \<Rightarrow> bool \<Rightarrow> bool \<Rightarrow> bool" where
  "isUniversalType_h_loop types [] hasClient hasServer = False"
| "isUniversalType_h_loop types (importer # rest) hasClient hasServer =
     (let t = map_of types importer;
          hasClient' = (if t = Some ''client'' then True else hasClient);
          hasServer' = (if t = Some ''server'' then True else hasServer)
      in if hasClient' \<and> hasServer' then True
         else isUniversalType_h_loop types rest hasClient' hasServer')"

definition isUniversalType_h :: "nat \<Rightarrow> nat \<Rightarrow> Heap \<Rightarrow> bool" where
  "isUniversalType_h types importers h =
     isUniversalType_h_loop (typesAt h types) (setAt h importers) False False"

definition computeUniversalSet_h :: "nat \<Rightarrow> nat \<Rightarrow> nat \<Rightarrow> Heap \<Rightarrow> nat \<times> Heap" where
  "computeUniversalSet_h nodes importers types h =
     (let universal = nextAddr h;
          h1 = new (StringSet []) h
      in (universal,
          fold (\<lambda>(fp, node) h.
                  if isClient node then h
                  else (case map_of (importersAt h importers) fp of
                          None \<Rightarrow> h
                        | Some from \<Rightarrow>
                            if isUniversalType_h types from h then setAdd universal fp h else h))
            (nodesAt h1 nodes) h1))"

definition computeComponentTypes_h :: "nat \<Rightarrow> Heap \<Rightarrow> nat \<times> Heap" where
  "computeComponentTypes_h nodes h =
     (let clientEntries = getClientEntries_h nodes h;
          (clientReachable, h1) = getClientReachable_h nodes clientEntries h;
          (types, h2) = initNodeTypes_h nodes clientReachable h1;
          (importers, h3) = collectImporters_h nodes h2;
          (universalSet, h4) = computeUniversalSet_h nodes importers types h3
      in (types, fold (\<lambda>fp h. typesSet types fp ''universal'' h) (setAt h4 universalSet) h4))"

text \<open>The string of a \<^verbatim>\<open>ComponentType\<close>.\<close>

fun typeName :: "ComponentType \<Rightarrow> string" where
  "typeName Client = ''client''"
| "typeName Server = ''server''"
| "typeName Universal = ''universal''"

section \<open>The historical in-place classifier (\<^verbatim>\<open>classifyComponentTypes\<close> method)\<close>

text \<open>
  The earlier \<^verbatim>\<open>ComponentEnvGraph\<close> classes classify inside the class: \<^verbatim>\<open>setNodeTypes\<close>
  writes \<^verbatim>\<open>node.type\<close> of every node, and \<^verbatim>\<open>setUniversalTypes\<close> then walks the nodes in
  map order, reading \<^verbatim>\<open>this.nodes.get(importer)?.type\<close> of the importers and writing
  \<^verbatim>\<open>node.type = "universal"\<close> as it goes. The node store is threaded through as state.
  \<^verbatim>\<open>getClientEntries\<close>, \<^verbatim>\<open>getClientReachable\<close> and \<^verbatim>\<open>collectImporters\<close> have the same
  bodies as in classify.ts.
\<close>

definition setNodeTypes :: "string list \<Rightarrow> NodeStore \<Rightarrow> NodeStore" where
  "setNodeTypes clientReachable nodes =
     map (\<lambda>(fp, node).
            (fp, node\<lparr>type := Some (if fp \<in> set clientReachable then Client else Server)\<rparr>))
       nodes"

definition typeOfImporter :: "NodeStore \<Rightarrow> string \<Rightarrow> ComponentType option" where
  "typeOfImporter nodes importer =
     (case map_of nodes importer of None \<Rightarrow> None | Some n \<Rightarrow> type n)"

fun isUniversalType_inplace_loop :: "NodeStore \<Rightarrow> string list \<Rightarrow> bool \<Rightarrow> bool \<Rightarrow> bool" where
  "isUniversalType_inplace_loop nodes [] hasClient hasServer = False"
| "isUniversalType_inplace_loop nodes (importer # rest) hasClient hasServer =
     (let t = typeOfImporter nodes importer;
          hasClient' = (if t = Some Client then True else hasClient);
          hasServer' = (if t = Some Server then True else hasServer)
      in if hasClient' \<and> hasServer' then True
         else isUniversalType_inplace_loop nodes rest hasClient' hasServer')"

definition isUniversalType_inplace :: "NodeStore \<Rightarrow> string list \<Rightarrow> bool" where
  "isUniversalType_inplace nodes importers =
     isUniversalType_inplace_loop nodes importers False False"

definition setUniversalTypes :: "(string \<times> string list) list \<Rightarrow> NodeStore \<Rightarrow> NodeStore" where
  "setUniversalTypes importers nodes =
     fold (\<lambda>fp nodes.
             case map_of nodes fp of
               None \<Rightarrow> nodes
             | Some node \<Rightarrow>
                 if isClient node then nodes
                 else (case map_of importers fp of
                         None \<Rightarrow> nodes
                       | Some from \<Rightarrow>
                           if isUniversalType_inplace nodes from
                           then AList.update fp (node\<lparr>type := Some Universal\<rparr>) nodes
                           else nodes))
       (map fst nodes) nodes"

definition classifyComponentTypes :: "NodeStore \<Rightarrow> NodeStore" where
  "classifyComponentTypes nodes =
     (let clientEntries = getClientEntries nodes;
          clientReachable = getClientReachable nodes clientEntries;
          nodes' = setNodeTypes clientReachable nodes;
          importers = collectImporters nodes'
      in setUniversalTypes importers nodes')"

section \<open>Source files and their analysis (analyze.ts)\<close>

text \<open>
  What the engine reads of a ts-morph \<^verbatim>\<open>SourceFile\<close>: its statements (kind name and text)
  and, for every import and export declaration, the path of the source file its module
  specifier resolves to, if any.
\<close>

record Statement =
  getKindName :: string
  getText :: string

record SourceFile =
  getStatements :: "Statement list"
  getImportDeclarations :: "string option list"
  getExportDeclarations :: "string option list"

text \<open>
  \<^verbatim>\<open>String.prototype.trim\<close> on the ASCII white space and line terminators. The
  other characters it strips (U+00A0, U+FEFF and the Unicode space separators) are left
  out.
\<close>

definition isWhiteSpace :: "char \<Rightarrow> bool" where
  "isWhiteSpace ch = (ch \<in> set [CHR 0x20, CHR 0x09, CHR 0x0A, CHR 0x0B, CHR 0x0C, CHR 0x0D])"

definition trim :: "string \<Rightarrow> string" where
  "trim s = rev (dropWhile isWhiteSpace (rev (dropWhile isWhiteSpace s)))"

definition hasUseClientDirective :: "SourceFile \<Rightarrow> bool" where
  "hasUseClientDirective sf =
     (case getStatements sf of
        [] \<Rightarrow> False
      | stmt # _ \<Rightarrow>
          if getKindName stmt = ''ExpressionStatement''
          then (let text = trim (getText stmt)
                in text = [CHR 0x27] @ ''use client'' @ [CHR 0x27] \<or>
                   text = [CHR 0x22] @ ''use client'' @ [CHR 0x22] \<or>
                   text = [CHR 0x27] @ ''use client'' @ [CHR 0x27] @ '';'' \<or>
                   text = [CHR 0x22] @ ''use client'' @ [CHR 0x22] @ '';'')
          else False)"

definition getStaticImports :: "SourceFile \<Rightarrow> string list" where
  "getStaticImports sf =
     (let importFiles = [f. Some f \<leftarrow> getImportDeclarations sf];
          exportFiles = [f. Some f \<leftarrow> getExportDeclarations sf]
      in importFiles @ exportFiles)"

section \<open>The engine (index.ts, files.ts)\<close>

text \<open>
  The world a \<^verbatim>\<open>build()\<close> call runs in: the files that exist on disk, each with what
  parsing it yields; the exclusion test \<^verbatim>\<open>isGlobExcluded\<close> of the engine (the exclude
  patterns matched with minimatch); and the glob list of \<^verbatim>\<open>addAllSourceFiles\<close> (the two
  source globs with the negated exclude patterns), as the test whether a path matches it.
  The disk does not change during a call.
\<close>

record World =
  disk :: "(string \<times> SourceFile) list"
  excludes :: "string \<Rightarrow> bool"
  globMatches :: "string \<Rightarrow> bool"

text \<open>
  The calls the engine makes to the file system, to the ts-morph project and to its node
  store, in the order it makes them, are kept in a log.
\<close>

datatype Call =
    ExistsSync string
  | RemoveSourceFile string
  | RefreshFromFileSystemSync string
  | AddSourceFileAtPath string
  | AddSourceFilesAtPaths
  | NodesDelete string
  | NodesSet string
  | ListenerCalled nat

text \<open>
  A registered listener, as what it does when it is called: it returns, or it throws. The
  errors of a build: what \<^verbatim>\<open>addSourceFileAtPath\<close> throws for a missing file, the
  \<^verbatim>\<open>TypeError\<close> of a call of something that is not a function, and what a listener has
  thrown.
\<close>

datatype Listener = Returns | Throws string

datatype Error = FileNotFoundError string | TypeError string | Thrown string

text \<open>
  The engine: the node store, the source files of the ts-morph project by path, the
  registered listeners, and the log. ts-morph returns the files of
  \<^verbatim>\<open>getSourceFiles()\<close> sorted by path; here the project keeps them, and returns them, in
  the order in which they were added. That order decides the order of the keys of the
  node store and the order of the calls inside one loop, and nothing else.
\<close>

record ComponentEnvGraph =
  nodes :: NodeStore
  project :: "(string \<times> SourceFile) list"
  listeners :: "Listener list"
  calls :: "Call list"

text \<open>
  The constructor creates the ts-morph project from the tsconfig file with
  \<^verbatim>\<open>skipAddingFilesFromTsConfig: false\<close>: the project starts with the source files the
  tsconfig includes.
\<close>

definition newComponentEnvGraph :: "(string \<times> SourceFile) list \<Rightarrow> ComponentEnvGraph" where
  "newComponentEnvGraph tsConfigFiles =
     \<lparr>nodes = [], project = tsConfigFiles, listeners = [], calls = []\<rparr>"

definition logCall :: "Call \<Rightarrow> ComponentEnvGraph \<Rightarrow> ComponentEnvGraph" where
  "logCall c g = g\<lparr>calls := calls g @ [c]\<rparr>"

definition nodesDelete :: "string \<Rightarrow> ComponentEnvGraph \<Rightarrow> ComponentEnvGraph" where
  "nodesDelete fp g = logCall (NodesDelete fp) (g\<lparr>nodes := AList.delete fp (nodes g)\<rparr>)"

definition nodesSet :: "string \<Rightarrow> FileNode \<Rightarrow> ComponentEnvGraph \<Rightarrow> ComponentEnvGraph" where
  "nodesSet fp node g = logCall (NodesSet fp) (g\<lparr>nodes := AList.update fp node (nodes g)\<rparr>)"

subsection \<open>The ts-morph project\<close>

text \<open>
  \<^verbatim>\<open>removeSourceFile\<close> forgets a file; \<^verbatim>\<open>addSourceFileAtPath\<close> throws when the file
  does not exist; \<^verbatim>\<open>refreshFromFileSystemSync\<close> reloads the file, and forgets it when
  it has been deleted; \<^verbatim>\<open>addSourceFilesAtPaths\<close> adds the files on disk that match the
  globs and are not in the project yet.
\<close>

definition removeSourceFile :: "string \<Rightarrow> ComponentEnvGraph \<Rightarrow> ComponentEnvGraph" where
  "removeSourceFile p g =
     logCall (RemoveSourceFile p) (g\<lparr>project := AList.delete p (project g)\<rparr>)"

definition addSourceFileAtPath ::
  "World \<Rightarrow> string \<Rightarrow> ComponentEnvGraph \<Rightarrow> Error + ComponentEnvGraph" where
  "addSourceFileAtPath w p g =
     (let g' = logCall (AddSourceFileAtPath p) g
      in case map_of (disk w) p of
           None \<Rightarrow> Inl (FileNotFoundError p)
         | Some sf \<Rightarrow> Inr (g'\<lparr>project := AList.update p sf (project g')\<rparr>))"

definition refreshFromFileSystemSync ::
  "World \<Rightarrow> string \<Rightarrow> ComponentEnvGraph \<Rightarrow> ComponentEnvGraph" where
  "refreshFromFileSystemSync w p g =
     (let g' = logCall (RefreshFromFileSystemSync p) g
      in case map_of (disk w) p of
           None \<Rightarrow> g'\<lparr>project := AList.delete p (project g')\<rparr>
         | Some sf \<Rightarrow> g'\<lparr>project := AList.update p sf (project g')\<rparr>)"

definition addMatching ::
  "World \<Rightarrow> string \<times> SourceFile \<Rightarrow> (string \<times> SourceFile) list \<Rightarrow> (string \<times> SourceFile) list"
  where
  "addMatching w = (\<lambda>(p, sf) proj.
     if globMatches w p \<and> \<not> has proj p then AList.update p sf proj else proj)"

definition addSourceFilesAtPaths :: "World \<Rightarrow> ComponentEnvGraph \<Rightarrow> ComponentEnvGraph" where
  "addSourceFilesAtPaths w g =
     (let g' = logCall AddSourceFilesAtPaths g
      in g'\<lparr>project := fold (addMatching w) (disk w) (project g')\<rparr>)"

subsection \<open>files.ts\<close>

definition addAllSourceFiles :: "World \<Rightarrow> ComponentEnvGraph \<Rightarrow> ComponentEnvGraph" where
  "addAllSourceFiles w g = addSourceFilesAtPaths w g"

text \<open>
  The last argument of \<^verbatim>\<open>refreshChangedFiles\<close>. files.ts declares it as a \<^verbatim>\<open>RegExp\<close> and
  evaluates \<^verbatim>\<open>excludes.test(changed)\<close>. A regular expression answers; an arrow function
  has no property \<^verbatim>\<open>test\<close>, and calling it throws a \<^verbatim>\<open>TypeError\<close>.
\<close>

datatype Excludes = RegExp "string \<Rightarrow> bool" | ArrowFunction "string \<Rightarrow> bool"

definition excludesTest :: "Excludes \<Rightarrow> string \<Rightarrow> Error + bool" where
  "excludesTest excl changed =
     (case excl of
        RegExp matches \<Rightarrow> Inr (matches changed)
      | ArrowFunction f \<Rightarrow> Inl (TypeError ''excludes.test is not a function''))"

text \<open>
  The body of the loop of \<^verbatim>\<open>refreshChangedFiles\<close> after the test has answered, on the
  engine and the set \<^verbatim>\<open>affectedFiles\<close>. What \<^verbatim>\<open>addSourceFileAtPath\<close> throws is caught
  and ignored.
\<close>

definition refreshChangedFile ::
  "World \<Rightarrow> bool \<Rightarrow> string \<Rightarrow> ComponentEnvGraph \<times> string list
     \<Rightarrow> ComponentEnvGraph \<times> string list"
  where
  "refreshChangedFile w excluded changed = (\<lambda>(g, affectedFiles).
     if excluded
     then (let g1 = nodesDelete changed g
           in (case map_of (project g1) changed of
                 None \<Rightarrow> g1
               | Some existed \<Rightarrow> removeSourceFile changed g1,
               affectedFiles))
     else (let g1 = (case map_of (project g) changed of
                       Some sf \<Rightarrow> refreshFromFileSystemSync w changed g
                     | None \<Rightarrow>
                         (case addSourceFileAtPath w changed g of
                            Inr g' \<Rightarrow> g'
                          | Inl _ \<Rightarrow> logCall (AddSourceFileAtPath changed) g))
           in (g1, set_add changed affectedFiles)))"

text \<open>
  The loop. Nothing in it catches what the test throws: the loop stops there, with the
  engine and the set as they are. The result is the error, if any, the engine and the
  set.
\<close>

fun refreshChangedFiles ::
  "World \<Rightarrow> Excludes \<Rightarrow> string list \<Rightarrow> ComponentEnvGraph \<times> string list
     \<Rightarrow> Error option \<times> ComponentEnvGraph \<times> string list"
  where
  "refreshChangedFiles w excl [] (g, affectedFiles) = (None, g, affectedFiles)"
| "refreshChangedFiles w excl (changed # rest) (g, affectedFiles) =
     (case excludesTest excl changed of
        Inl err \<Rightarrow> (Some err, g, affectedFiles)
      | Inr excluded \<Rightarrow>
          refreshChangedFiles w excl rest
            (refreshChangedFile w excluded changed (g, affectedFiles)))"

text \<open>
  The body of the loop of \<^verbatim>\<open>removeDeletedFiles\<close>; the loop runs over the array that
  \<^verbatim>\<open>project.getSourceFiles()\<close> returned before it started.
\<close>

definition checkDeleted :: "World \<Rightarrow> string \<times> SourceFile \<Rightarrow> ComponentEnvGraph \<Rightarrow> ComponentEnvGraph"
  where
  "checkDeleted w = (\<lambda>(p, sf) g.
     let g' = logCall (ExistsSync p) g
     in if \<not> has (disk w) p then removeSourceFile p (nodesDelete p g') else g')"

definition removeDeletedFiles :: "World \<Rightarrow> ComponentEnvGraph \<Rightarrow> ComponentEnvGraph" where
  "removeDeletedFiles w g = fold (checkDeleted w) (project g) g"

definition markAllFilesAsAffected :: "ComponentEnvGraph \<Rightarrow> string list \<Rightarrow> string list" where
  "markAllFilesAsAffected g affectedFiles =
     fold (\<lambda>(p, sf) affectedFiles. set_add p affectedFiles) (project g) affectedFiles"

subsection \<open>index.ts\<close>

text \<open>
  \<^verbatim>\<open>updateProjectSourceFiles\<close> runs \<^verbatim>\<open>removeDeletedFiles\<close> first. Its
  \<^verbatim>\<open>refreshChangedFiles\<close> hands the arrow function \<^verbatim>\<open>this.isGlobExcluded\<close> to the
  function of files.ts. The result is the set of affected files, or the error that left
  the method, and the engine as it is then.
\<close>

definition updateProjectSourceFiles ::
  "World \<Rightarrow> string list option \<Rightarrow> ComponentEnvGraph
     \<Rightarrow> (Error + string list) \<times> ComponentEnvGraph" where
  "updateProjectSourceFiles w changedFiles g =
     (let affectedFiles = [];
          g1 = removeDeletedFiles w g
      in if changedFiles \<noteq> None \<and> length (the changedFiles) > 0
         then (case refreshChangedFiles w (ArrowFunction (excludes w)) (the changedFiles)
                      (g1, affectedFiles) of
                 (Some err, g2, affectedFiles') \<Rightarrow> (Inl err, g2)
               | (None, g2, affectedFiles') \<Rightarrow> (Inr affectedFiles', g2))
         else (let g2 = addAllSourceFiles w g1
               in (Inr (markAllFilesAsAffected g2 affectedFiles), g2)))"

text \<open>The body of the loop of \<^verbatim>\<open>updateFileNodes\<close>, and the loop.\<close>

definition updateFileNode :: "string \<Rightarrow> ComponentEnvGraph \<Rightarrow> ComponentEnvGraph" where
  "updateFileNode fp g =
     (case map_of (project g) fp of
        None \<Rightarrow> nodesDelete fp g
      | Some sf \<Rightarrow>
          nodesSet fp
            \<lparr>filePath = fp, isClient = hasUseClientDirective sf,
             imports = getStaticImports sf, type = None\<rparr> g)"

definition updateFileNodes :: "string list \<Rightarrow> ComponentEnvGraph \<Rightarrow> ComponentEnvGraph" where
  "updateFileNodes filesToUpdate g = fold updateFileNode filesToUpdate g"

text \<open>
  \<^verbatim>\<open>emit("update")\<close> of Node's \<^verbatim>\<open>EventEmitter\<close> calls the listeners one after the other,
  in the order of registration, and catches nothing: what a listener throws leaves
  \<^verbatim>\<open>emit\<close>. Neither \<^verbatim>\<open>fireDidUpdate\<close> nor \<^verbatim>\<open>build\<close> has a \<^verbatim>\<open>try\<close>. The result is the
  error that escapes, if any, and the engine as it is left.
\<close>

fun emit ::
  "Listener list \<Rightarrow> nat \<Rightarrow> ComponentEnvGraph \<Rightarrow> Error option \<times> ComponentEnvGraph" where
  "emit [] i g = (None, g)"
| "emit (listener # rest) i g =
     (let g' = logCall (ListenerCalled i) g
      in case listener of
           Throws e \<Rightarrow> (Some (Thrown e), g')
         | Returns \<Rightarrow> emit rest (Suc i) g')"

definition onDidUpdate :: "Listener \<Rightarrow> ComponentEnvGraph \<Rightarrow> ComponentEnvGraph" where
  "onDidUpdate listener g = g\<lparr>listeners := listeners g @ [listener]\<rparr>"

definition fireDidUpdate :: "ComponentEnvGraph \<Rightarrow> Error option \<times> ComponentEnvGraph" where
  "fireDidUpdate g = emit (listeners g) 0 g"

text \<open>
  \<^verbatim>\<open>build\<close>. An error that leaves \<^verbatim>\<open>updateProjectSourceFiles\<close> leaves \<^verbatim>\<open>build\<close>: the
  nodes are not updated, no types are computed and no listener is called.
\<close>

definition build ::
  "World \<Rightarrow> string list option \<Rightarrow> ComponentEnvGraph \<Rightarrow> Error option \<times> ComponentEnvGraph" where
  "build w changedFiles g =
     (case updateProjectSourceFiles w changedFiles g of
        (Inl err, g1) \<Rightarrow> (Some err, g1)
      | (Inr filesToUpdate, g1) \<Rightarrow>
          (let g2 = updateFileNodes filesToUpdate g1;
               types = computeComponentTypes (nodes g2);
               g3 = g2\<lparr>nodes :=
                      map (\<lambda>(fp, node).
                             case map_of types fp of
                               None \<Rightarrow> (fp, node)
                             | Some t \<Rightarrow> (fp, node\<lparr>type := Some t\<rparr>))
                        (nodes g2)\<rparr>
           in fireDidUpdate g3))"

section \<open>Graph notions used to state the properties\<close>

text \<open>
  The importers of a path: the keys of the nodes whose import list names it. The
  successors of a path: the imports of its node that are nodes themselves; \<open>edges\<close> is
  the relation the traversal follows.
\<close>

definition importers_of :: "NodeStore \<Rightarrow> string \<Rightarrow> string set" where
  "importers_of ns t = {fp. \<exists>node. (fp, node) \<in> set ns \<and> t \<in> set (imports node)}"

definition succs :: "NodeStore \<Rightarrow> string \<Rightarrow> string set" where
  "succs ns x = (case map_of ns x of None \<Rightarrow> {}
                    | Some n \<Rightarrow> {y \<in> set (imports n). has ns y})"

definition edges :: "NodeStore \<Rightarrow> (string \<times> string) set" where
  "edges ns = {(x, y). y \<in> succs ns x}"

text \<open>The importer index as sets, and that no importer set in it is empty.\<close>

definition imp_abs :: "(string \<times> string list) list \<Rightarrow> string \<Rightarrow> string set" where
  "imp_abs im t = (case map_of im t of None \<Rightarrow> {} | Some s \<Rightarrow> set s)"

definition imp_inv :: "(string \<times> string list) list \<Rightarrow> bool" where
  "imp_inv im = (\<forall>t s. map_of im t = Some s \<longrightarrow> s \<noteq> [])"

section \<open>Notions used to relate the two forms of the classifier\<close>

text \<open>
  The map of importer sets at an address, with its sets read from the store; and what
  \<^verbatim>\<open>collectImporters\<close> keeps true of it: its cell holds it, every key has a set of its
  own, and the sets were created after the map.
\<close>

definition importerSets :: "Heap \<Rightarrow> nat \<Rightarrow> (string \<times> string list) list" where
  "importerSets h a = map (\<lambda>(k, s). (k, setAt h s)) (importersAt h a)"

definition importersOk :: "Heap \<Rightarrow> nat \<Rightarrow> bool" where
  "importersOk h a =
     (cells h a = ImportersMap (importersAt h a) \<and>
      distinct (map fst (importersAt h a)) \<and>
      distinct (map snd (importersAt h a)) \<and>
      list_all (\<lambda>s. a < s \<and> s < nextAddr h) (map snd (importersAt h a)) \<and>
      a < nextAddr h)"

text \<open>A map of types with the types as strings.\<close>

definition typeNames :: "(string \<times> ComponentType) list \<Rightarrow> (string \<times> string) list" where
  "typeNames types = map (\<lambda>(fp, t). (fp, typeName t)) types"

section \<open>Notions used to state the properties of the engine\<close>

text \<open>
  The calls a \<^verbatim>\<open>build()\<close> makes are the ones it appends to the log. The deletion pass
  is made of the \<^verbatim>\<open>fs.existsSync\<close> tests and of the removals from the node store and
  from the project. \<open>allBefore P Q\<close> says that every call satisfying \<open>P\<close> comes before
  every call satisfying \<open>Q\<close>.
\<close>

fun isExistsSync :: "Call \<Rightarrow> bool" where
  "isExistsSync (ExistsSync p) = True"
| "isExistsSync c = False"

fun isDeletionPassCall :: "Call \<Rightarrow> bool" where
  "isDeletionPassCall (ExistsSync p) = True"
| "isDeletionPassCall (NodesDelete p) = True"
| "isDeletionPassCall (RemoveSourceFile p) = True"
| "isDeletionPassCall c = False"

fun isAddOrRefresh :: "Call \<Rightarrow> bool" where
  "isAddOrRefresh (RefreshFromFileSystemSync p) = True"
| "isAddOrRefresh (AddSourceFileAtPath p) = True"
| "isAddOrRefresh AddSourceFilesAtPaths = True"
| "isAddOrRefresh c = False"

fun isNodesSet :: "Call \<Rightarrow> bool" where
  "isNodesSet (NodesSet p) = True"
| "isNodesSet c = False"

fun isListenerCalled :: "Call \<Rightarrow> bool" where
  "isListenerCalled (ListenerCalled i) = True"
| "isListenerCalled c = False"


definition buildCalls :: "World \<Rightarrow> string list option \<Rightarrow> ComponentEnvGraph \<Rightarrow> Call list" where
  "buildCalls w changedFiles g = drop (length (calls g)) (calls (snd (build w changedFiles g)))"

text \<open>
  What one run of the loop of \<^verbatim>\<open>removeDeletedFiles\<close> over the files \<open>l\<close> logs: a test
  for each file and, for a file that is not on disk, its removal from the node store and
  from the project.
\<close>

definition deletionPassCalls :: "World \<Rightarrow> (string \<times> SourceFile) list \<Rightarrow> Call list" where
  "deletionPassCalls w l =
     concat (map (\<lambda>(p, sf). if has (disk w) p then [ExistsSync p]
                              else [ExistsSync p, NodesDelete p, RemoveSourceFile p]) l)"

text \<open>The assignment of the computed types in \<^verbatim>\<open>build\<close>.\<close>

definition typed :: "ComponentEnvGraph \<Rightarrow> ComponentEnvGraph" where
  "typed g2 =
     g2\<lparr>nodes := map (\<lambda>(fp, node). case map_of (computeComponentTypes (nodes g2)) fp of
                      None \<Rightarrow> (fp, node)
                    | Some t \<Rightarrow> (fp, node\<lparr>type := Some t\<rparr>)) (nodes g2)\<rparr>"

section \<open>Example stores\<close>

text \<open>Fan-in: \<open>a.tsx\<close> (client-marked) and \<open>c.tsx\<close> both import \<open>b.tsx\<close>.\<close>

definition fanIn :: NodeStore where
  "fanIn =
    [(''a.tsx'', \<lparr>filePath = ''a.tsx'', isClient = True, imports = [''b.tsx''], type = None\<rparr>),
     (''c.tsx'', \<lparr>filePath = ''c.tsx'', isClient = False, imports = [''b.tsx''], type = None\<rparr>),
     (''b.tsx'', \<lparr>filePath = ''b.tsx'', isClient = False, imports = [], type = None\<rparr>)]"

text \<open>
  Fan-in twice: \<open>b.tsx\<close> is imported by the client-marked \<open>a.tsx\<close> and by \<open>c.tsx\<close>, and
  \<open>d.tsx\<close> is imported by \<open>b.tsx\<close> and by \<open>s.tsx\<close>. In \<open>mixedImporters\<close> the
  client-marked \<open>x.tsx\<close> is imported by a client file and by a server file.
\<close>

definition cascade :: NodeStore where
  "cascade =
    [(''a.tsx'', \<lparr>filePath = ''a.tsx'', isClient = True, imports = [''b.tsx''], type = None\<rparr>),
     (''b.tsx'', \<lparr>filePath = ''b.tsx'', isClient = False, imports = [''d.tsx''], type = None\<rparr>),
     (''c.tsx'', \<lparr>filePath = ''c.tsx'', isClient = False, imports = [''b.tsx''], type = None\<rparr>),
     (''d.tsx'', \<lparr>filePath = ''d.tsx'', isClient = False, imports = [], type = None\<rparr>),
     (''s.tsx'', \<lparr>filePath = ''s.tsx'', isClient = False, imports = [''d.tsx''], type = None\<rparr>)]"

definition mixedImporters :: NodeStore where
  "mixedImporters =
    [(''a.tsx'', \<lparr>filePath = ''a.tsx'', isClient = True, imports = [''x.tsx''], type = None\<rparr>),
     (''s.tsx'', \<lparr>filePath = ''s.tsx'', isClient = False, imports = [''x.tsx''], type = None\<rparr>),
     (''x.tsx'', \<lparr>filePath = ''x.tsx'', isClient = True, imports = [], type = None\<rparr>)]"

text \<open>
  A project as the tests set it up: \<open>Parent.tsx\<close> (client-marked) imports \<open>a.tsx\<close>, and
  the story file \<open>a.stories.tsx\<close>, which the exclusion patterns match, imports \<open>a.tsx\<close>
  too. All three exist when the engine is constructed.
\<close>

definition sfPlain :: SourceFile where
  "sfPlain = \<lparr>getStatements = [], getImportDeclarations = [], getExportDeclarations = []\<rparr>"

definition sfImportsA :: SourceFile where
  "sfImportsA = \<lparr>getStatements = [], getImportDeclarations = [Some ''/proj/a.tsx''],
                 getExportDeclarations = []\<rparr>"

definition sfParent :: SourceFile where
  "sfParent =
     \<lparr>getStatements =
        [\<lparr>getKindName = ''ExpressionStatement'',
          getText = [CHR 0x22] @ ''use client'' @ [CHR 0x22] @ '';''\<rparr>],
      getImportDeclarations = [Some ''/proj/a.tsx''],
      getExportDeclarations = []\<rparr>"

definition storiesWorld :: World where
  "storiesWorld =
     \<lparr>disk = [(''/proj/Parent.tsx'', sfParent), (''/proj/a.tsx'', sfPlain),
              (''/proj/a.stories.tsx'', sfImportsA)],
      excludes = (\<lambda>p. p = ''/proj/a.stories.tsx''),
      globMatches = (\<lambda>p. p = ''/proj/Parent.tsx'' \<or> p = ''/proj/a.tsx'')\<rparr>"

text \<open>
  An engine that tracks \<open>a.tsx\<close> and \<open>gone.tsx\<close>, in a world where \<open>gone.tsx\<close> has been
  removed from disk; and the same engine in a world where \<open>gone.tsx\<close> has been renamed
  to \<open>renamed.tsx\<close>.
\<close>

definition staleWorld :: World where
  "staleWorld =
     \<lparr>disk = [(''/proj/a.tsx'', sfPlain)],
      excludes = (\<lambda>p. False),
      globMatches = (\<lambda>p. True)\<rparr>"


definition staleGraph :: ComponentEnvGraph where
  "staleGraph =
     \<lparr>nodes = [(''/proj/a.tsx'',
                 \<lparr>filePath = ''/proj/a.tsx'', isClient = False, imports = [], type = Some Server\<rparr>),
                (''/proj/gone.tsx'',
                 \<lparr>filePath = ''/proj/gone.tsx'', isClient = False, imports = [], type = Some Server\<rparr>)],
      project = [(''/proj/a.tsx'', sfPlain), (''/proj/gone.tsx'', sfPlain)],
      listeners = [],
      calls = []\<rparr>"

section \<open>Association lists as maps\<close>

lemma update_fresh: "k \<notin> fst ` set m \<Longrightarrow> AList.update k v m = m @ [(k, v)]"
  by (induction m) auto

lemma map_of_fold_update:
  "map_of (fold (\<lambda>k m. AList.update k (f k) m) ks m0) k =
     (if k \<in> set ks then Some (f k) else map_of m0 k)"
  by (induction ks arbitrary: m0) (auto simp: update_conv')

lemma keys_fold_update_fresh:
  "distinct ks \<Longrightarrow> set ks \<inter> fst ` set m0 = {} \<Longrightarrow>
     map fst (fold (\<lambda>k m. AList.update k (f k) m) ks m0) = map fst m0 @ ks"
proof (induction ks arbitrary: m0)
  case Nil
  then show ?case by simp
next
  case (Cons k ks)
  have fresh: "k \<notin> fst ` set m0" using Cons.prems by auto
  have "set ks \<inter> fst ` set (AList.update k (f k) m0) = {}"
    using Cons.prems by (auto simp: update_fresh[OF fresh])
  with Cons show ?case by (simp add: update_fresh[OF fresh])
qed

lemma keys_fold_update_present:
  "set ks \<subseteq> fst ` set m0 \<Longrightarrow>
     map fst (fold (\<lambda>k m. AList.update k (f k) m) ks m0) = map fst m0"
proof (induction ks arbitrary: m0)
  case Nil
  then show ?case by simp
next
  case (Cons k ks)
  have keys: "map fst (AList.update k (f k) m0) = map fst m0"
    using Cons.prems by (simp add: update_keys)
  then have "set ks \<subseteq> fst ` set (AList.update k (f k) m0)"
    using Cons.prems by (metis list.set_map set_subset_Cons subset_trans)
  from Cons.IH[OF this] keys show ?case by simp
qed

section \<open>The steps of the classifier\<close>

lemma map_of_initNodeTypes:
  "map_of (initNodeTypes ns cr) fp =
     (if fp \<in> fst ` set ns then Some (if fp \<in> set cr then Client else Server) else None)"
  unfolding initNodeTypes_def by (simp add: map_of_fold_update)

lemma keys_initNodeTypes:
  "distinct (map fst ns) \<Longrightarrow> map fst (initNodeTypes ns cr) = map fst ns"
  unfolding initNodeTypes_def
  using keys_fold_update_fresh[of "map fst ns" "[]"] by simp

lemma isUniversalType_loop_iff:
  "isUniversalType_loop types xs hc hs =
     (xs \<noteq> [] \<and> (hc \<or> (\<exists>i\<in>set xs. map_of types i = Some Client))
              \<and> (hs \<or> (\<exists>j\<in>set xs. map_of types j = Some Server)))"
proof (induction xs arbitrary: hc hs)
  case Nil
  then show ?case by simp
next
  case (Cons x xs)
  show ?case
    by (auto simp: Let_def Cons.IH)
qed

lemma isUniversalType_iff:
  "isUniversalType types importers =
     ((\<exists>i\<in>set importers. map_of types i = Some Client) \<and>
      (\<exists>j\<in>set importers. map_of types j = Some Server))"
  unfolding isUniversalType_def by (auto simp: isUniversalType_loop_iff)

lemma in_fold_universal:
  "fp \<in> set (fold (\<lambda>(fp, node) universal.
             if isClient node then universal
             else (case map_of importers fp of
                     None \<Rightarrow> universal
                   | Some from \<Rightarrow>
                       if isUniversalType types from then set_add fp universal else universal))
       ns acc) \<longleftrightarrow>
   fp \<in> set acc \<or> (\<exists>node from. (fp, node) \<in> set ns \<and> \<not> isClient node \<and>
        map_of importers fp = Some from \<and> isUniversalType types from)"
proof (induction ns arbitrary: acc)
  case Nil
  then show ?case by simp
next
  case (Cons a ns)
  obtain k n where a: "a = (k, n)" by (cases a)
  show ?case
    unfolding a by (auto simp: Cons.IH set_add_def split: option.splits)
qed

lemma in_computeUniversalSet:
  "fp \<in> set (computeUniversalSet ns importers types) \<longleftrightarrow>
     (\<exists>node from. (fp, node) \<in> set ns \<and> \<not> isClient node \<and>
        map_of importers fp = Some from \<and> isUniversalType types from)"
  unfolding computeUniversalSet_def by (simp add: in_fold_universal)

lemma map_of_computeComponentTypes:
  "map_of (computeComponentTypes ns) fp =
     (let types = initNodeTypes ns (getClientReachable ns (getClientEntries ns))
      in if fp \<in> set (computeUniversalSet ns (collectImporters ns) types)
         then Some Universal else map_of types fp)"
  unfolding computeComponentTypes_def Let_def
  by (simp add: map_of_fold_update)

subsection \<open>The importer index\<close>

lemma map_of_addImporter:
  "map_of (addImporter fp imp im) =
     (map_of im)(imp \<mapsto> set_add fp (case map_of im imp of None \<Rightarrow> [] | Some s \<Rightarrow> s))"
  by (cases "map_of im imp") (auto simp: addImporter_def has_def Let_def update_conv')

lemma addImporter_abs:
  "imp_abs (addImporter fp imp im) t = (if t = imp then insert fp (imp_abs im t) else imp_abs im t)"
  by (auto simp: imp_abs_def map_of_addImporter set_add_def split: option.splits)

lemma addImporter_inv: "imp_inv im \<Longrightarrow> imp_inv (addImporter fp imp im)"
  by (auto simp: imp_inv_def map_of_addImporter set_add_def split: option.splits if_splits)

lemma fold_addImporter_abs:
  "imp_abs (fold (addImporter fp) imps im) t =
     (if t \<in> set imps then insert fp (imp_abs im t) else imp_abs im t)"
  by (induction imps arbitrary: im) (auto simp: addImporter_abs)

lemma fold_addImporter_inv: "imp_inv im \<Longrightarrow> imp_inv (fold (addImporter fp) imps im)"
  by (induction imps arbitrary: im) (auto simp: addImporter_inv)

lemma fold_nodes_abs:
  "imp_abs (fold (\<lambda>(fp, node) importers. fold (addImporter fp) (imports node) importers) ns im) t
     = imp_abs im t \<union> importers_of ns t"
proof (induction ns arbitrary: im)
  case Nil
  then show ?case by (simp add: importers_of_def)
next
  case (Cons a ns)
  obtain k n where a: "a = (k, n)" by (cases a)
  show ?case
    unfolding a by (auto simp: Cons.IH fold_addImporter_abs importers_of_def)
qed

lemma fold_nodes_inv:
  "imp_inv im \<Longrightarrow>
   imp_inv (fold (\<lambda>(fp, node) importers. fold (addImporter fp) (imports node) importers) ns im)"
proof (induction ns arbitrary: im)
  case Nil
  then show ?case by simp
next
  case (Cons a ns)
  obtain k n where a: "a = (k, n)" by (cases a)
  show ?case
    unfolding a using Cons.prems by (simp add: Cons.IH fold_addImporter_inv)
qed

lemma collectImporters_abs: "imp_abs (collectImporters ns) t = importers_of ns t"
  unfolding collectImporters_def using fold_nodes_abs[of ns "[]" t] by (simp add: imp_abs_def)

lemma collectImporters_inv: "imp_inv (collectImporters ns)"
  unfolding collectImporters_def by (rule fold_nodes_inv) (simp add: imp_inv_def)

lemma collectImporters_Some:
  "map_of (collectImporters ns) t = Some s \<Longrightarrow> set s = importers_of ns t"
  using collectImporters_abs[of ns t] by (simp add: imp_abs_def)

lemma collectImporters_None:
  "map_of (collectImporters ns) t = None \<longleftrightarrow> importers_of ns t = {}"
  using collectImporters_abs[of ns t] collectImporters_inv[of ns]
  by (auto simp: imp_abs_def imp_inv_def split: option.splits)

subsection \<open>The traversal\<close>

lemma visit_mono:
  "set vis \<subseteq> set (visit ns fp vis)"
  "set vis \<subseteq> set (visit_imports ns imps vis)"
  using visit_mono_dom visit_total by auto

lemma visit_self: "fp \<in> set (visit ns fp vis)"
  using visit_mono(2)[of "vis @ [fp]" ns]
  by (auto simp: visit.simps split: option.splits)

lemma visit_distinct:
  "distinct vis \<Longrightarrow> distinct (visit ns fp vis)"
  "distinct vis \<Longrightarrow> distinct (visit_imports ns imps vis)"
proof (induction ns fp vis and ns imps vis rule: visit_visit_imports.induct)
  case (1 ns fp vis)
  show ?case
  proof (cases "fp \<in> set vis")
    case True
    then show ?thesis using 1(2) by (simp add: visit.simps)
  next
    case False
    then have d: "distinct (vis @ [fp])" using 1(2) by simp
    show ?thesis
    proof (cases "map_of ns fp")
      case None
      then show ?thesis using False d by (simp add: visit.simps)
    next
      case (Some node)
      from 1(1)[OF False Some d] show ?thesis using False Some by (simp add: visit.simps)
    qed
  qed
next
  case (2 ns vis)
  then show ?case by simp
next
  case (3 ns imp rest vis)
  have "distinct (if has ns imp then visit ns imp vis else vis)"
    using 3(1) 3(3) by simp
  from 3(2)[OF this] show ?case by simp
qed

lemma getClientReachable_distinct: "distinct (getClientReachable ns entries)"
proof -
  have "distinct vis \<Longrightarrow> distinct (fold (\<lambda>entry cr. visit ns entry cr) entries vis)" for vis
    by (induction entries arbitrary: vis) (simp_all add: visit_distinct)
  then show ?thesis by (simp add: getClientReachable_def)
qed

lemma visit_closed:
  "\<forall>x \<in> set (visit ns fp vis) - set vis. succs ns x \<subseteq> set (visit ns fp vis)"
  "(\<forall>x \<in> set (visit_imports ns imps vis) - set vis.
        succs ns x \<subseteq> set (visit_imports ns imps vis)) \<and>
   {y \<in> set imps. has ns y} \<subseteq> set (visit_imports ns imps vis)"
proof (induction ns fp vis and ns imps vis rule: visit_visit_imports.induct)
  case (1 ns fp vis)
  show ?case
  proof (cases "fp \<in> set vis")
    case True
    then show ?thesis by (simp add: visit.simps)
  next
    case False
    show ?thesis
    proof (cases "map_of ns fp")
      case None
      then show ?thesis using False by (auto simp: visit.simps succs_def)
    next
      case (Some node)
      let ?r = "visit_imports ns (imports node) (vis @ [fp])"
      have r: "visit ns fp vis = ?r" using False Some by (simp add: visit.simps)
      have IH: "(\<forall>x \<in> set ?r - set (vis @ [fp]). succs ns x \<subseteq> set ?r) \<and>
                {y \<in> set (imports node). has ns y} \<subseteq> set ?r"
        using 1[OF False Some] .
      have "succs ns fp \<subseteq> set ?r" using IH Some by (simp add: succs_def)
      with IH show ?thesis unfolding r by auto
    qed
  qed
next
  case (2 ns vis)
  then show ?case by simp
next
  case (3 ns imp rest vis)
  let ?v = "if has ns imp then visit ns imp vis else vis"
  let ?r = "visit_imports ns rest ?v"
  have r: "visit_imports ns (imp # rest) vis = ?r" by simp
  have IH2: "(\<forall>x \<in> set ?r - set ?v. succs ns x \<subseteq> set ?r) \<and>
             {y \<in> set rest. has ns y} \<subseteq> set ?r"
    using 3(2) .
  have m: "set ?v \<subseteq> set ?r" by (rule visit_mono)
  have IH1: "\<forall>x \<in> set ?v - set vis. succs ns x \<subseteq> set ?v"
    using 3(1) by auto
  have imp_in: "has ns imp \<Longrightarrow> imp \<in> set ?r"
    using m visit_self[of imp ns vis] by auto
  show ?case unfolding r
  proof (intro conjI ballI)
    fix x assume "x \<in> set ?r - set vis"
    then show "succs ns x \<subseteq> set ?r"
      using IH1 IH2 m by blast
  next
    show "{y \<in> set (imp # rest). has ns y} \<subseteq> set ?r"
      using IH2 imp_in by auto
  qed
qed

lemma visit_sound:
  "set (visit ns fp vis) \<subseteq> set vis \<union> (edges ns)\<^sup>* `` {fp}"
  "set (visit_imports ns imps vis) \<subseteq> set vis \<union> (edges ns)\<^sup>* `` {y \<in> set imps. has ns y}"
proof (induction ns fp vis and ns imps vis rule: visit_visit_imports.induct)
  case (1 ns fp vis)
  show ?case
  proof (cases "fp \<in> set vis")
    case True
    then show ?thesis by (simp add: visit.simps)
  next
    case False
    show ?thesis
    proof (cases "map_of ns fp")
      case None
      then show ?thesis using False by (simp add: visit.simps)
    next
      case (Some node)
      have r: "visit ns fp vis = visit_imports ns (imports node) (vis @ [fp])"
        using False Some by (simp add: visit.simps)
      have step: "{y \<in> set (imports node). has ns y} \<subseteq> edges ns `` {fp}"
        using Some by (auto simp: edges_def succs_def)
      have "(edges ns)\<^sup>* `` {y \<in> set (imports node). has ns y} \<subseteq> (edges ns)\<^sup>* `` {fp}"
        using step by (auto intro: converse_rtrancl_into_rtrancl)
      with 1[OF False Some] show ?thesis unfolding r by auto
    qed
  qed
next
  case (2 ns vis)
  then show ?case by simp
next
  case (3 ns imp rest vis)
  have a: "set (if has ns imp then visit ns imp vis else vis)
            \<subseteq> set vis \<union> (edges ns)\<^sup>* `` {y \<in> set (imp # rest). has ns y}"
    using 3(1) by auto
  have b: "(edges ns)\<^sup>* `` {y \<in> set rest. has ns y}
            \<subseteq> (edges ns)\<^sup>* `` {y \<in> set (imp # rest). has ns y}"
    by auto
  have r: "visit_imports ns (imp # rest) vis =
      visit_imports ns rest (if has ns imp then visit ns imp vis else vis)"
    by simp
  show ?case unfolding r using 3(2) a b by blast
qed

lemma fold_visit_mono:
  "set vis \<subseteq> set (fold (\<lambda>entry cr. visit ns entry cr) entries vis)"
proof (induction entries arbitrary: vis)
  case Nil
  then show ?case by simp
next
  case (Cons e es)
  show ?case using Cons.IH[of "visit ns e vis"] visit_mono(1)[of vis ns e] by auto
qed

lemma fold_visit_entries:
  "set entries \<subseteq> set (fold (\<lambda>entry cr. visit ns entry cr) entries vis)"
proof (induction entries arbitrary: vis)
  case Nil
  then show ?case by simp
next
  case (Cons e es)
  show ?case
    using Cons.IH[of "visit ns e vis"] fold_visit_mono[of "visit ns e vis" ns es]
      visit_self[of e ns vis] by auto
qed

lemma fold_visit_closed:
  "\<forall>x \<in> set vis. succs ns x \<subseteq> set vis \<Longrightarrow>
   \<forall>x \<in> set (fold (\<lambda>entry cr. visit ns entry cr) entries vis).
      succs ns x \<subseteq> set (fold (\<lambda>entry cr. visit ns entry cr) entries vis)"
proof (induction entries arbitrary: vis)
  case Nil
  then show ?case by simp
next
  case (Cons e es)
  have "\<forall>x \<in> set (visit ns e vis). succs ns x \<subseteq> set (visit ns e vis)"
    using Cons.prems visit_closed(1)[of ns e vis] visit_mono(1)[of vis ns e] by blast
  from Cons.IH[OF this] show ?case by simp
qed

lemma fold_visit_sound:
  "set (fold (\<lambda>entry cr. visit ns entry cr) entries vis)
     \<subseteq> set vis \<union> (edges ns)\<^sup>* `` set entries"
proof (induction entries arbitrary: vis)
  case Nil
  then show ?case by simp
next
  case (Cons e es)
  show ?case
    using Cons.IH[of "visit ns e vis"] visit_sound(1)[of ns e vis] by auto
qed

lemma getClientReachable_eq:
  "set (getClientReachable ns entries) = (edges ns)\<^sup>* `` set entries"
proof
  show "set (getClientReachable ns entries) \<subseteq> (edges ns)\<^sup>* `` set entries"
    unfolding getClientReachable_def using fold_visit_sound[of ns entries "[]"] by simp
next
  let ?R = "set (getClientReachable ns entries)"
  have closed: "\<forall>x \<in> ?R. succs ns x \<subseteq> ?R"
    unfolding getClientReachable_def by (rule fold_visit_closed) simp
  have ent: "set entries \<subseteq> ?R"
    unfolding getClientReachable_def by (rule fold_visit_entries)
  have "y \<in> ?R" if "(x, y) \<in> (edges ns)\<^sup>*" "x \<in> ?R" for x y
    using that
  proof (induction rule: rtrancl_induct)
    case base
    then show ?case by simp
  next
    case (step y z)
    then show ?case using closed by (auto simp: edges_def)
  qed
  then show "(edges ns)\<^sup>* `` set entries \<subseteq> ?R" using ent by auto
qed

subsection \<open>The mapping returned by \<open>computeComponentTypes\<close>\<close>

lemma wf_store_lookup:
  "wf_store ns \<Longrightarrow> (fp, node) \<in> set ns \<longleftrightarrow> map_of ns fp = Some node"
  by (auto simp: wf_store_def dest: map_of_SomeD)

lemma wf_store_filePath:
  "wf_store ns \<Longrightarrow> (fp, node) \<in> set ns \<Longrightarrow> filePath node = fp"
  by (auto simp: wf_store_def list_all_iff)

lemma set_getClientEntries:
  "set (getClientEntries ns) = {filePath n | k n. (k, n) \<in> set ns \<and> isClient n}"
  by (force simp: getClientEntries_def)

lemma map_of_baselineTypes:
  "map_of (baselineTypes ns) fp =
     (if fp \<in> fst ` set ns
      then Some (if fp \<in> (edges ns)\<^sup>* `` set (getClientEntries ns) then Client else Server)
      else None)"
  unfolding baselineTypes_def by (simp add: map_of_initNodeTypes getClientReachable_eq)

lemma computeComponentTypes_lookup:
  assumes "wf_store ns" and "map_of ns fp = Some node"
  shows "map_of (computeComponentTypes ns) fp =
           (if \<not> isClient node \<and>
               (\<exists>from. map_of (collectImporters ns) fp = Some from \<and>
                  (\<exists>i\<in>set from. map_of (baselineTypes ns) i = Some Client) \<and>
                  (\<exists>j\<in>set from. map_of (baselineTypes ns) j = Some Server))
            then Some Universal else map_of (baselineTypes ns) fp)"
proof -
  have uniq: "(fp, n) \<in> set ns \<longleftrightarrow> n = node" for n
    using assms wf_store_lookup by auto
  show ?thesis
    unfolding map_of_computeComponentTypes Let_def in_computeUniversalSet
      isUniversalType_iff baselineTypes_def[symmetric]
    by (simp add: uniq)
qed

section \<open>The classifier on the store against the classifier on values\<close>

subsection \<open>Reads and writes\<close>

lemma nextAddr_put: "nextAddr (put a obj h) = nextAddr h"
  by (simp add: put_def)

lemma cells_new: "cells (new obj h) b = (if b = nextAddr h then obj else cells h b)"
  by (simp add: new_def put_def)

lemma nextAddr_new: "nextAddr (new obj h) = Suc (nextAddr h)"
  by (simp add: new_def)

lemma cells_setAdd:
  "cells (setAdd a x h) b = (if b = a then StringSet (set_add x (setAt h a)) else cells h b)"
  by (simp add: setAdd_def put_def)

lemma nextAddr_setAdd: "nextAddr (setAdd a x h) = nextAddr h"
  by (simp add: setAdd_def put_def)

lemma cells_typesSet:
  "cells (typesSet a k v h) b =
     (if b = a then TypesMap (AList.update k v (typesAt h a)) else cells h b)"
  by (simp add: typesSet_def put_def)

lemma nextAddr_typesSet: "nextAddr (typesSet a k v h) = nextAddr h"
  by (simp add: typesSet_def put_def)

lemma cells_importersSet:
  "cells (importersSet a k v h) b =
     (if b = a then ImportersMap (AList.update k v (importersAt h a)) else cells h b)"
  by (simp add: importersSet_def put_def)

lemma nextAddr_importersSet: "nextAddr (importersSet a k v h) = nextAddr h"
  by (simp add: importersSet_def put_def)

lemma read_cell:
  "cells h a = NodesMap ns \<Longrightarrow> nodesAt h a = ns"
  "cells h a = StringSet s \<Longrightarrow> setAt h a = s"
  "cells h a = TypesMap ts \<Longrightarrow> typesAt h a = ts"
  "cells h a = ImportersMap m \<Longrightarrow> importersAt h a = m"
  by (simp_all add: nodesAt_def setAt_def typesAt_def importersAt_def)

subsection \<open>getClientReachable\<close>

text \<open>
  \<^verbatim>\<open>visit\<close> writes to the set \<^verbatim>\<open>clientReachable\<close> and to nothing else, and what it leaves
  in the set is what \<open>visit\<close> on values computes.
\<close>

lemma visit_h_refines:
  "cr \<noteq> n \<Longrightarrow> cells h n = NodesMap ns \<Longrightarrow> cells h cr = StringSet s \<Longrightarrow>
     (\<forall>a. cells (visit_h n cr fp h) a =
            (if a = cr then StringSet (visit ns fp s) else cells h a)) \<and>
     nextAddr (visit_h n cr fp h) = nextAddr h"
  "cr \<noteq> n \<Longrightarrow> cells h n = NodesMap ns \<Longrightarrow> cells h cr = StringSet s \<Longrightarrow>
     (\<forall>a. cells (visit_imports_h n cr imps h) a =
            (if a = cr then StringSet (visit_imports ns imps s) else cells h a)) \<and>
     nextAddr (visit_imports_h n cr imps h) = nextAddr h"
proof (induction n cr fp h and n cr imps h arbitrary: s and s
    rule: visit_h_visit_imports_h.induct)
  case (1 n cr fp h)
  have sa: "setAt h cr = s" using 1(4) by (rule read_cell)
  show ?case
  proof (cases "fp \<in> set s")
    case True
    then show ?thesis
      using 1(4) by (simp add: visit_h.simps visit.simps sa)
  next
    case False
    let ?h1 = "setAdd cr fp h"
    have c1: "cells ?h1 a = (if a = cr then StringSet (s @ [fp]) else cells h a)" for a
      using False by (simp add: cells_setAdd sa set_add_def)
    have n1: "nodesAt ?h1 n = ns"
      using 1(2,3) by (simp add: nodesAt_def c1)
    show ?thesis
    proof (cases "map_of ns fp")
      case None
      then show ?thesis
        using False by (simp add: visit_h.simps visit.simps sa n1 c1 nextAddr_setAdd)
    next
      case (Some node)
      have f: "fp \<notin> set (setAt h cr)" using False sa by simp
      have m: "map_of (nodesAt ?h1 n) fp = Some node" using Some n1 by simp
      have "cells ?h1 n = NodesMap ns" using 1(2,3) by (simp add: c1)
      moreover have "cells ?h1 cr = StringSet (s @ [fp])" by (simp add: c1)
      ultimately have "(\<forall>a. cells (visit_imports_h n cr (imports node) ?h1) a =
          (if a = cr then StringSet (visit_imports ns (imports node) (s @ [fp]))
           else cells ?h1 a)) \<and>
          nextAddr (visit_imports_h n cr (imports node) ?h1) = nextAddr ?h1"
        using 1(1)[OF f m 1(2)] by blast
      then show ?thesis
        using False Some by (simp add: visit_h.simps visit.simps sa n1 c1 nextAddr_setAdd)
    qed
  qed
next
  case (2 n cr h)
  then show ?case by simp
next
  case (3 n cr imp rest h)
  have na: "nodesAt h n = ns" using 3(4) by (rule read_cell)
  show ?case
  proof (cases "has ns imp")
    case True
    let ?h1 = "visit_h n cr imp h"
    have t: "has (nodesAt h n) imp" using True na by simp
    have v: "cells ?h1 a = (if a = cr then StringSet (visit ns imp s) else cells h a)"
        "nextAddr ?h1 = nextAddr h" for a
      using 3(1)[OF t 3(3,4,5)] by simp_all
    have "cells ?h1 n = NodesMap ns" using 3(3,4) by (simp add: v)
    moreover have "cells ?h1 cr = StringSet (visit ns imp s)" by (simp add: v)
    ultimately have "(\<forall>a. cells (visit_imports_h n cr rest ?h1) a =
        (if a = cr then StringSet (visit_imports ns rest (visit ns imp s)) else cells ?h1 a)) \<and>
        nextAddr (visit_imports_h n cr rest ?h1) = nextAddr ?h1"
      using 3(2)[OF 3(3)] True na by simp
    then show ?thesis using True by (simp add: na v)
  next
    case False
    have "(\<forall>a. cells (visit_imports_h n cr rest h) a =
        (if a = cr then StringSet (visit_imports ns rest s) else cells h a)) \<and>
        nextAddr (visit_imports_h n cr rest h) = nextAddr h"
      using 3(2)[OF 3(3)] 3(4,5) False na by simp
    then show ?thesis using False by (simp add: na)
  qed
qed

lemma fold_visit_h:
  "cr \<noteq> n \<Longrightarrow> cells h n = NodesMap ns \<Longrightarrow> cells h cr = StringSet s \<Longrightarrow>
     (\<forall>a. cells (fold (\<lambda>entry h. visit_h n cr entry h) entries h) a =
       (if a = cr
        then StringSet (fold (\<lambda>entry clientReachable. visit ns entry clientReachable) entries s)
        else cells h a)) \<and>
     nextAddr (fold (\<lambda>entry h. visit_h n cr entry h) entries h) = nextAddr h"
proof (induction entries arbitrary: h s)
  case Nil
  then show ?case by simp
next
  case (Cons e entries)
  let ?h1 = "visit_h n cr e h"
  have v: "cells ?h1 a = (if a = cr then StringSet (visit ns e s) else cells h a)"
      "nextAddr ?h1 = nextAddr h" for a
    using visit_h_refines(1)[OF Cons.prems] by simp_all
  have "cells ?h1 n = NodesMap ns" using Cons.prems(1,2) by (simp add: v)
  moreover have "cells ?h1 cr = StringSet (visit ns e s)" by (simp add: v)
  ultimately show ?case
    using Cons.IH[OF Cons.prems(1), of ?h1 "visit ns e s"] by (simp add: v)
qed

lemma getClientReachable_h_refines:
  assumes "cells h n = NodesMap ns" and "n < nextAddr h"
  shows "fst (getClientReachable_h n entries h) = nextAddr h"
    and "cells (snd (getClientReachable_h n entries h)) a =
           (if a = nextAddr h then StringSet (getClientReachable ns entries) else cells h a)"
    and "nextAddr (snd (getClientReachable_h n entries h)) = Suc (nextAddr h)"
proof -
  let ?cr = "nextAddr h"
  let ?h1 = "new (StringSet []) h"
  have ne: "?cr \<noteq> n" using assms(2) by simp
  have a: "cells ?h1 n = NodesMap ns" using assms ne by (simp add: cells_new)
  have b: "cells ?h1 ?cr = StringSet []" by (simp add: cells_new)
  from fold_visit_h[OF ne a b, of entries]
  show "cells (snd (getClientReachable_h n entries h)) a =
           (if a = nextAddr h then StringSet (getClientReachable ns entries) else cells h a)"
    and "nextAddr (snd (getClientReachable_h n entries h)) = Suc (nextAddr h)"
    by (simp_all add: getClientReachable_h_def getClientReachable_def Let_def cells_new
        nextAddr_new)
  show "fst (getClientReachable_h n entries h) = nextAddr h"
    by (simp add: getClientReachable_h_def Let_def)
qed

subsection \<open>initNodeTypes\<close>

lemma update_typeNames:
  "AList.update k (typeName v) (typeNames m) = typeNames (AList.update k v m)"
  by (induction m) (auto simp: typeNames_def)

lemma fold_typesSet_init:
  "t \<noteq> cr \<Longrightarrow> cells h cr = StringSet reach \<Longrightarrow> cells h t = TypesMap (typeNames acc) \<Longrightarrow>
     (\<forall>a. cells (fold (\<lambda>fp h. typesSet t fp
                    (if fp \<in> set (setAt h cr) then ''client'' else ''server'') h) ks h) a =
       (if a = t
        then TypesMap (typeNames
          (fold (\<lambda>fp types. AList.update fp (if fp \<in> set reach then Client else Server) types)
             ks acc))
        else cells h a)) \<and>
     nextAddr (fold (\<lambda>fp h. typesSet t fp
                    (if fp \<in> set (setAt h cr) then ''client'' else ''server'') h) ks h) =
       nextAddr h"
proof (induction ks arbitrary: h acc)
  case Nil
  then show ?case by simp
next
  case (Cons k ks)
  let ?v = "if k \<in> set reach then Client else Server"
  let ?h1 = "typesSet t k (if k \<in> set (setAt h cr) then ''client'' else ''server'') h"
  have sa: "setAt h cr = reach" using Cons.prems(2) by (rule read_cell)
  have ta: "typesAt h t = typeNames acc" using Cons.prems(3) by (rule read_cell)
  have s: "(if k \<in> set (setAt h cr) then ''client'' else ''server'') = typeName ?v"
    by (simp add: sa)
  have c1: "cells ?h1 a = (if a = t then TypesMap (typeNames (AList.update k ?v acc))
                           else cells h a)" for a
    unfolding s by (simp add: cells_typesSet ta update_typeNames)
  have n1: "nextAddr ?h1 = nextAddr h" by (simp add: nextAddr_typesSet)
  have p1: "cells ?h1 cr = StringSet reach" using Cons.prems(1,2) by (simp add: c1)
  have p2: "cells ?h1 t = TypesMap (typeNames (AList.update k ?v acc))" by (simp add: c1)
  from Cons.IH[OF Cons.prems(1) p1 p2] show ?case
    by (simp add: n1 cells_typesSet)
qed

lemma initNodeTypes_h_refines:
  assumes "cells h n = NodesMap ns" and "n < nextAddr h"
    and "cells h cr = StringSet reach" and "cr < nextAddr h"
  shows "fst (initNodeTypes_h n cr h) = nextAddr h"
    and "cells (snd (initNodeTypes_h n cr h)) a =
           (if a = nextAddr h then TypesMap (typeNames (initNodeTypes ns reach)) else cells h a)"
    and "nextAddr (snd (initNodeTypes_h n cr h)) = Suc (nextAddr h)"
proof -
  let ?t = "nextAddr h"
  let ?h1 = "new (TypesMap []) h"
  have ne: "?t \<noteq> cr" "?t \<noteq> n" using assms(2,4) by simp_all
  have a: "nodesAt ?h1 n = ns" using assms(1) ne by (simp add: nodesAt_def cells_new)
  have b: "cells ?h1 cr = StringSet reach" using assms(3) ne by (simp add: cells_new)
  have c: "cells ?h1 ?t = TypesMap (typeNames [])" by (simp add: cells_new typeNames_def)
  from fold_typesSet_init[OF ne(1) b c, of "map fst ns"]
  show "cells (snd (initNodeTypes_h n cr h)) a =
           (if a = nextAddr h then TypesMap (typeNames (initNodeTypes ns reach)) else cells h a)"
    and "nextAddr (snd (initNodeTypes_h n cr h)) = Suc (nextAddr h)"
    by (simp_all add: initNodeTypes_h_def initNodeTypes_def Let_def a cells_new nextAddr_new)
  show "fst (initNodeTypes_h n cr h) = nextAddr h"
    by (simp add: initNodeTypes_h_def Let_def)
qed

subsection \<open>collectImporters\<close>

lemma read_eq:
  "cells h' a = cells h a \<Longrightarrow> nodesAt h' a = nodesAt h a"
  "cells h' a = cells h a \<Longrightarrow> setAt h' a = setAt h a"
  "cells h' a = cells h a \<Longrightarrow> typesAt h' a = typesAt h a"
  "cells h' a = cells h a \<Longrightarrow> importersAt h' a = importersAt h a"
  by (simp_all add: nodesAt_def setAt_def typesAt_def importersAt_def)

lemma map_of_map_snd:
  "map_of (map (\<lambda>(k, a). (k, f a)) m) k = map_option f (map_of m k)"
  by (induction m) auto

lemma addImporter_present:
  "map_of im imp = Some s \<Longrightarrow> addImporter fp imp im = AList.update imp (set_add fp s) im"
  by (simp add: addImporter_def has_def)

lemma update_twice_fresh:
  "k \<notin> fst ` set m \<Longrightarrow> AList.update k v (AList.update k v0 m) = m @ [(k, v)]"
  by (induction m) auto

lemma addImporter_absent:
  "map_of im imp = None \<Longrightarrow> addImporter fp imp im = im @ [(imp, [fp])]"
proof -
  assume n: "map_of im imp = None"
  then have f: "imp \<notin> fst ` set im" by (simp add: map_of_eq_None_iff)
  have "map_of (AList.update imp [] im) imp = Some []" by (simp add: update_conv')
  then show ?thesis
    using n update_twice_fresh[OF f, of "set_add fp []" "[]"]
    by (simp add: addImporter_def has_def set_add_def)
qed

lemma map_update_at_address:
  "distinct (map snd m) \<Longrightarrow> map_of m k = Some s \<Longrightarrow>
     map (\<lambda>(k', a). (k', if a = s then v else f a)) m =
       AList.update k v (map (\<lambda>(k', a). (k', f a)) m)"
proof (induction m)
  case Nil
  then show ?case by simp
next
  case (Cons x m)
  obtain k' a where x: "x = (k', a)" by (cases x)
  show ?case
  proof (cases "k' = k")
    case True
    then have as: "a = s" using Cons.prems(2) x by simp
    have "s \<notin> snd ` set m" using Cons.prems(1) x as by auto
    then have "map (\<lambda>(k', a). (k', if a = s then v else f a)) m = map (\<lambda>(k', a). (k', f a)) m"
      by (intro map_cong) (auto simp: image_iff)
    then show ?thesis using True as x by simp
  next
    case False
    then have m: "map_of m k = Some s" using Cons.prems(2) x by simp
    then have "(k, s) \<in> set m" by (rule map_of_SomeD)
    then have "a \<noteq> s" using Cons.prems(1) x by (auto simp: image_iff)
    then show ?thesis
      using False x Cons.IH[OF _ m] Cons.prems(1) by simp
  qed
qed

lemma importersOk_D:
  assumes "importersOk h i"
  shows "cells h i = ImportersMap (importersAt h i)"
    and "distinct (map fst (importersAt h i))"
    and "distinct (map snd (importersAt h i))"
    and "\<And>k s. (k, s) \<in> set (importersAt h i) \<Longrightarrow> i < s \<and> s < nextAddr h"
    and "i < nextAddr h"
  using assms by (auto simp: importersOk_def list_all_iff)

lemma addImporter_h_step:
  assumes ok: "importersOk h i"
  shows "importersOk (addImporter_h i fp imp h) i \<and>
         importerSets (addImporter_h i fp imp h) i = addImporter fp imp (importerSets h i) \<and>
         (\<forall>a<i. cells (addImporter_h i fp imp h) a = cells h a) \<and>
         nextAddr h \<le> nextAddr (addImporter_h i fp imp h)"
proof -
  let ?m = "importersAt h i"
  note D = importersOk_D[OF ok]
  show ?thesis
  proof (cases "map_of ?m imp")
    case (Some s)
    let ?h' = "setAdd s fp h"
    have e: "addImporter_h i fp imp h = ?h'"
      using Some by (simp add: addImporter_h_def has_def)
    have ms: "(imp, s) \<in> set ?m" using Some by (rule map_of_SomeD)
    then have si: "i < s" "s < nextAddr h" using D(4) by auto
    have c: "cells ?h' a = (if a = s then StringSet (set_add fp (setAt h s)) else cells h a)" for a
      by (simp add: cells_setAdd)
    have m': "importersAt ?h' i = ?m" using si by (intro read_eq) (simp add: c)
    have sa: "setAt ?h' a = (if a = s then set_add fp (setAt h s) else setAt h a)" for a
      by (simp add: setAt_setAdd)
    have 1: "importersOk ?h' i"
      using ok si D(1) by (simp add: importersOk_def m' nextAddr_setAdd c)
    have "importerSets ?h' i =
        AList.update imp (set_add fp (setAt h s)) (importerSets h i)"
      unfolding importerSets_def m' sa
      by (rule map_update_at_address[OF D(3) Some])
    moreover have "map_of (importerSets h i) imp = Some (setAt h s)"
      by (simp add: importerSets_def map_of_map_snd Some)
    ultimately have 2: "importerSets ?h' i = addImporter fp imp (importerSets h i)"
      by (simp add: addImporter_present)
    have 3: "\<forall>a<i. cells ?h' a = cells h a" using si by (simp add: c)
    show ?thesis unfolding e using 1 2 3 by (simp add: nextAddr_setAdd)
  next
    case None
    let ?n = "nextAddr h"
    let ?ha = "new (StringSet []) h"
    let ?hb = "importersSet i imp ?n ?ha"
    let ?h' = "setAdd ?n fp ?hb"
    have ni: "i < ?n" by (rule D(5))
    have fresh: "imp \<notin> fst ` set ?m" using None by (simp add: map_of_eq_None_iff)
    have ma: "importersAt ?ha i = ?m" using ni by (intro read_eq) (simp add: cells_new)
    have "cells ?hb i = ImportersMap (AList.update imp ?n (importersAt ?ha i))"
      by (simp add: cells_importersSet)
    then have mb: "importersAt ?hb i = ?m @ [(imp, ?n)]"
      unfolding ma update_fresh[OF fresh] by (rule read_cell)
    have "cells ?hb ?n = StringSet []"
      using ni by (simp add: cells_importersSet cells_new)
    then have sb: "setAt ?hb ?n = []" by (rule read_cell)
    have e: "addImporter_h i fp imp h = ?h'"
      using None by (simp add: addImporter_h_def has_def mb Let_def map_add_def)
    have c: "cells ?h' a =
        (if a = ?n then StringSet [fp]
         else if a = i then ImportersMap (?m @ [(imp, ?n)]) else cells h a)" for a
      by (simp add: cells_setAdd sb set_add_def cells_importersSet ma update_fresh[OF fresh]
          cells_new)
    have "cells ?h' i = ImportersMap (?m @ [(imp, ?n)])" using ni by (simp add: c)
    then have m': "importersAt ?h' i = ?m @ [(imp, ?n)]" by (rule read_cell)
    have nx: "nextAddr ?h' = Suc ?n"
      by (simp add: nextAddr_setAdd nextAddr_importersSet nextAddr_new)
    have old: "setAt ?h' s = setAt h s" if "(k, s) \<in> set ?m" for k s
      using D(4)[OF that] by (intro read_eq) (simp add: c)
    have nn: "?n \<notin> snd ` set ?m" using D(4) by force
    have 1: "importersOk ?h' i"
      using D(2,3,4) ni fresh nn
      by (auto simp: importersOk_def m' nx c list_all_iff less_Suc_eq)
    have "map (\<lambda>(k, s). (k, setAt ?h' s)) ?m = map (\<lambda>(k, s). (k, setAt h s)) ?m"
      by (intro map_cong) (auto simp: old)
    moreover have "setAt ?h' ?n = [fp]" by (rule read_cell) (simp add: c)
    ultimately have "importerSets ?h' i = importerSets h i @ [(imp, [fp])]"
      by (simp add: importerSets_def m')
    moreover have "map_of (importerSets h i) imp = None"
      by (simp add: importerSets_def map_of_map_snd None)
    ultimately have 2: "importerSets ?h' i = addImporter fp imp (importerSets h i)"
      by (simp add: addImporter_absent)
    have 3: "\<forall>a<i. cells ?h' a = cells h a" using ni by (simp add: c)
    show ?thesis unfolding e using 1 2 3 by (simp add: nx)
  qed
qed

lemma fold_addImporter_h:
  "importersOk h i \<Longrightarrow>
     importersOk (fold (addImporter_h i fp) imps h) i \<and>
     importerSets (fold (addImporter_h i fp) imps h) i =
       fold (addImporter fp) imps (importerSets h i) \<and>
     (\<forall>a<i. cells (fold (addImporter_h i fp) imps h) a = cells h a) \<and>
     nextAddr h \<le> nextAddr (fold (addImporter_h i fp) imps h)"
proof (induction imps arbitrary: h)
  case Nil
  then show ?case by simp
next
  case (Cons imp imps)
  note s = addImporter_h_step[OF Cons.prems, of fp imp]
  from s have ok1: "importersOk (addImporter_h i fp imp h) i" by blast
  from Cons.IH[OF ok1] s show ?case by (simp add: le_trans)
qed

lemma fold_collectImporters_h:
  "importersOk h i \<Longrightarrow>
     importersOk (fold (\<lambda>(fp, node) h. fold (addImporter_h i fp) (imports node) h) l h) i \<and>
     importerSets (fold (\<lambda>(fp, node) h. fold (addImporter_h i fp) (imports node) h) l h) i =
       fold (\<lambda>(fp, node) importers. fold (addImporter fp) (imports node) importers) l
         (importerSets h i) \<and>
     (\<forall>a<i. cells (fold (\<lambda>(fp, node) h. fold (addImporter_h i fp) (imports node) h) l h) a =
            cells h a) \<and>
     nextAddr h \<le> nextAddr (fold (\<lambda>(fp, node) h. fold (addImporter_h i fp) (imports node) h) l h)"
proof (induction l arbitrary: h)
  case Nil
  then show ?case by simp
next
  case (Cons x l)
  obtain fp node where x: "x = (fp, node)" by (cases x)
  note s = fold_addImporter_h[OF Cons.prems, of fp "imports node"]
  from s have ok1: "importersOk (fold (addImporter_h i fp) (imports node) h) i" by blast
  from Cons.IH[OF ok1] s show ?case unfolding x by (simp add: le_trans)
qed

lemma collectImporters_h_refines:
  assumes "cells h n = NodesMap ns" and "n < nextAddr h"
  shows "fst (collectImporters_h n h) = nextAddr h"
    and "importersOk (snd (collectImporters_h n h)) (nextAddr h)"
    and "importerSets (snd (collectImporters_h n h)) (nextAddr h) = collectImporters ns"
    and "a < nextAddr h \<Longrightarrow> cells (snd (collectImporters_h n h)) a = cells h a"
    and "nextAddr h < nextAddr (snd (collectImporters_h n h))"
proof -
  let ?i = "nextAddr h"
  let ?h1 = "new (ImportersMap []) h"
  have na: "nodesAt ?h1 n = ns" using assms by (simp add: nodesAt_def cells_new)
  have m1: "importersAt ?h1 ?i = []" by (simp add: importersAt_def cells_new)
  have ok: "importersOk ?h1 ?i"
    by (simp add: importersOk_def m1 cells_new nextAddr_new)
  have e: "importerSets ?h1 ?i = []" by (simp add: importerSets_def m1)
  note f = fold_collectImporters_h[OF ok, of ns]
  show "fst (collectImporters_h n h) = nextAddr h"
    by (simp add: collectImporters_h_def Let_def)
  show "importersOk (snd (collectImporters_h n h)) (nextAddr h)"
    using f by (simp add: collectImporters_h_def Let_def na)
  show "importerSets (snd (collectImporters_h n h)) (nextAddr h) = collectImporters ns"
    using f by (simp add: collectImporters_h_def Let_def na e collectImporters_def)
  show "cells (snd (collectImporters_h n h)) a = cells h a" if "a < nextAddr h"
    using f that by (simp add: collectImporters_h_def Let_def na cells_new)
  show "nextAddr h < nextAddr (snd (collectImporters_h n h))"
    using f by (simp add: collectImporters_h_def Let_def na nextAddr_new)
qed

subsection \<open>computeUniversalSet\<close>

lemma map_of_typeNames: "map_of (typeNames types) k = map_option typeName (map_of types k)"
  by (induction types) (auto simp: typeNames_def)

lemma typeName_eq [simp]:
  "typeName t = ''client'' \<longleftrightarrow> t = Client"
  "typeName t = ''server'' \<longleftrightarrow> t = Server"
  "typeName t = ''universal'' \<longleftrightarrow> t = Universal"
  by (cases t; simp)+

lemma isUniversalType_h_loop_refines:
  "isUniversalType_h_loop (typeNames types) xs hc hs = isUniversalType_loop types xs hc hs"
proof (induction xs arbitrary: hc hs)
  case Nil
  then show ?case by simp
next
  case (Cons x xs)
  have c: "map_of (typeNames types) x = Some ''client'' \<longleftrightarrow> map_of types x = Some Client"
    by (cases "map_of types x") (simp_all add: map_of_typeNames)
  have s: "map_of (typeNames types) x = Some ''server'' \<longleftrightarrow> map_of types x = Some Server"
    by (cases "map_of types x") (simp_all add: map_of_typeNames)
  show ?case by (auto simp: Let_def c s Cons.IH)
qed

lemma fold_computeUniversalSet_h:
  assumes "u \<noteq> t" and "u \<noteq> i" and "u \<notin> snd ` set (importersAt h i)"
    and "cells h t = TypesMap (typeNames types)" and "cells h u = StringSet acc"
  shows "(\<forall>a. cells (fold (\<lambda>(fp, node) h.
                  if isClient node then h
                  else (case map_of (importersAt h i) fp of
                          None \<Rightarrow> h
                        | Some from \<Rightarrow>
                            if isUniversalType_h t from h then setAdd u fp h else h)) l h) a =
           (if a = u
            then StringSet (fold (\<lambda>(fp, node) universal.
                   if isClient node then universal
                   else (case map_of (importerSets h i) fp of
                           None \<Rightarrow> universal
                         | Some from \<Rightarrow>
                             if isUniversalType types from then set_add fp universal
                             else universal)) l acc)
            else cells h a)) \<and>
         nextAddr (fold (\<lambda>(fp, node) h.
                  if isClient node then h
                  else (case map_of (importersAt h i) fp of
                          None \<Rightarrow> h
                        | Some from \<Rightarrow>
                            if isUniversalType_h t from h then setAdd u fp h else h)) l h) =
           nextAddr h"
  using assms
proof (induction l arbitrary: h acc)
  case Nil
  then show ?case by simp
next
  case (Cons x l)
  obtain fp node where x: "x = (fp, node)" by (cases x)
  let ?body = "\<lambda>(fp, node) h.
                  if isClient node then h
                  else (case map_of (importersAt h i) fp of
                          None \<Rightarrow> h
                        | Some from \<Rightarrow>
                            if isUniversalType_h t from h then setAdd u fp h else h)"
  let ?pure = "\<lambda>(fp, node) universal.
                   if isClient node then universal
                   else (case map_of (importerSets h i) fp of
                           None \<Rightarrow> universal
                         | Some from \<Rightarrow>
                             if isUniversalType types from then set_add fp universal
                             else universal)"
  let ?h1 = "?body (fp, node) h"
  let ?acc1 = "?pure (fp, node) acc"
  have ta: "typesAt h t = typeNames types" using Cons.prems(4) by (rule read_cell)
  have ua: "setAt h u = acc" using Cons.prems(5) by (rule read_cell)
  have iu: "isUniversalType_h t frm h = isUniversalType types (setAt h frm)" for frm
    by (simp add: isUniversalType_h_def isUniversalType_def ta isUniversalType_h_loop_refines)
  have ms: "map_of (importerSets h i) fp = map_option (setAt h) (map_of (importersAt h i) fp)"
    by (simp add: importerSets_def map_of_map_snd)
  have step: "(\<forall>a. cells ?h1 a = (if a = u then StringSet ?acc1 else cells h a)) \<and>
      nextAddr ?h1 = nextAddr h"
    using Cons.prems(5)
    by (cases "map_of (importersAt h i) fp")
      (simp_all add: ms iu cells_setAdd nextAddr_setAdd ua)
  then have c1: "cells ?h1 a = (if a = u then StringSet ?acc1 else cells h a)" for a
    by blast
  have "cells ?h1 i = cells h i" using Cons.prems(2) by (simp only: c1) simp
  then have m1: "importersAt ?h1 i = importersAt h i" by (rule read_eq)
  have s1: "importerSets ?h1 i = importerSets h i"
  proof -
    have "setAt ?h1 s = setAt h s" if "(k, s) \<in> set (importersAt h i)" for k s
    proof -
      have "s \<noteq> u" using that Cons.prems(3) by force
      then have "cells ?h1 s = cells h s" by (simp only: c1) simp
      then show ?thesis by (rule read_eq)
    qed
    then have "map (\<lambda>(k, s). (k, setAt ?h1 s)) (importersAt h i) =
        map (\<lambda>(k, s). (k, setAt h s)) (importersAt h i)"
      by (intro map_cong) auto
    then show ?thesis by (simp only: importerSets_def m1)
  qed
  have p3: "u \<notin> snd ` set (importersAt ?h1 i)" unfolding m1 by (rule Cons.prems(3))
  have p4: "cells ?h1 t = TypesMap (typeNames types)"
    using Cons.prems(1,4) by (simp only: c1) simp
  have p5: "cells ?h1 u = StringSet ?acc1" by (simp only: c1) simp
  from Cons.IH[OF Cons.prems(1,2) p3 p4 p5] step
  show ?case unfolding x fold_Cons comp_apply s1 by (simp only: c1) auto
qed

lemma computeUniversalSet_h_refines:
  assumes "cells h n = NodesMap ns" and "n < nextAddr h"
    and "cells h t = TypesMap (typeNames types)" and "t < nextAddr h"
    and "importersOk h i"
  shows "fst (computeUniversalSet_h n i t h) = nextAddr h"
    and "cells (snd (computeUniversalSet_h n i t h)) a =
           (if a = nextAddr h
            then StringSet (computeUniversalSet ns (importerSets h i) types)
            else cells h a)"
    and "nextAddr (snd (computeUniversalSet_h n i t h)) = Suc (nextAddr h)"
proof -
  let ?u = "nextAddr h"
  let ?h1 = "new (StringSet []) h"
  note D = importersOk_D[OF assms(5)]
  have ui: "?u \<noteq> i" using D(5) by simp
  have na: "nodesAt ?h1 n = ns" using assms(1,2) by (simp add: nodesAt_def cells_new)
  have m1: "importersAt ?h1 i = importersAt h i" using ui by (intro read_eq) (simp add: cells_new)
  have nin: "?u \<notin> snd ` set (importersAt h i)" using D(4) by force
  have s1: "importerSets ?h1 i = importerSets h i"
  proof -
    have "setAt ?h1 s = setAt h s" if "(k, s) \<in> set (importersAt h i)" for k s
      using D(4)[OF that] by (intro read_eq) (simp add: cells_new)
    then have "map (\<lambda>(k, s). (k, setAt ?h1 s)) (importersAt h i) =
        map (\<lambda>(k, s). (k, setAt h s)) (importersAt h i)"
      by (intro map_cong) auto
    then show ?thesis by (simp only: importerSets_def m1)
  qed
  have p1: "?u \<noteq> t" using assms(4) by simp
  have p3: "?u \<notin> snd ` set (importersAt ?h1 i)" using nin m1 by simp
  have p4: "cells ?h1 t = TypesMap (typeNames types)" using assms(3) p1 by (simp add: cells_new)
  have p5: "cells ?h1 ?u = StringSet []" by (simp add: cells_new)
  note f = fold_computeUniversalSet_h[OF p1 ui p3 p4 p5, of ns]
  show "fst (computeUniversalSet_h n i t h) = nextAddr h"
    by (simp add: computeUniversalSet_h_def Let_def)
  show "cells (snd (computeUniversalSet_h n i t h)) a =
           (if a = nextAddr h
            then StringSet (computeUniversalSet ns (importerSets h i) types)
            else cells h a)"
    using f unfolding s1
    by (simp add: computeUniversalSet_h_def Let_def na computeUniversalSet_def cells_new)
  show "nextAddr (snd (computeUniversalSet_h n i t h)) = Suc (nextAddr h)"
    using f by (simp add: computeUniversalSet_h_def Let_def na nextAddr_new)
qed

subsection \<open>computeComponentTypes\<close>

lemma fold_typesSet_universal:
  "cells h t = TypesMap (typeNames types) \<Longrightarrow>
     (\<forall>a. cells (fold (\<lambda>fp h. typesSet t fp ''universal'' h) us h) a =
        (if a = t
         then TypesMap (typeNames (fold (\<lambda>fp types. AList.update fp Universal types) us types))
         else cells h a)) \<and>
     nextAddr (fold (\<lambda>fp h. typesSet t fp ''universal'' h) us h) = nextAddr h"
proof (induction us arbitrary: h types)
  case Nil
  then show ?case by simp
next
  case (Cons k us)
  let ?h1 = "typesSet t k ''universal'' h"
  have ta: "typesAt h t = typeNames types" using Cons.prems by (rule read_cell)
  have "AList.update k ''universal'' (typeNames types) = typeNames (AList.update k Universal types)"
    using update_typeNames[of k Universal types] by simp
  then have c1: "cells ?h1 a =
      (if a = t then TypesMap (typeNames (AList.update k Universal types)) else cells h a)" for a
    by (simp add: cells_typesSet ta)
  have p: "cells ?h1 t = TypesMap (typeNames (AList.update k Universal types))"
    by (simp add: c1)
  from Cons.IH[OF p] show ?case by (simp add: c1 nextAddr_typesSet)
qed

text \<open>
  \<^verbatim>\<open>computeComponentTypes\<close> on the store: it changes no object that exists when it is
  called, and the map it returns is a new object that holds what \<open>computeComponentTypes\<close>
  on values computes.
\<close>

lemma computeComponentTypes_h_refines:
  assumes "cells h n = NodesMap ns" and "n < nextAddr h"
  shows "a < nextAddr h \<Longrightarrow> cells (snd (computeComponentTypes_h n h)) a = cells h a"
    and "nextAddr h \<le> fst (computeComponentTypes_h n h)"
    and "fst (computeComponentTypes_h n h) < nextAddr (snd (computeComponentTypes_h n h))"
    and "cells (snd (computeComponentTypes_h n h)) (fst (computeComponentTypes_h n h)) =
           TypesMap (typeNames (computeComponentTypes ns))"
proof -
  let ?entries = "getClientEntries_h n h"
  let ?cr = "nextAddr h"
  let ?h1 = "snd (getClientReachable_h n ?entries h)"
  let ?t = "Suc (nextAddr h)"
  let ?h2 = "snd (initNodeTypes_h n ?cr ?h1)"
  let ?i = "Suc (Suc (nextAddr h))"
  let ?h3 = "snd (collectImporters_h n ?h2)"
  let ?u = "nextAddr ?h3"
  let ?h4 = "snd (computeUniversalSet_h n ?i ?t ?h3)"
  let ?reach = "getClientReachable ns (getClientEntries ns)"
  let ?types = "initNodeTypes ns ?reach"
  let ?U = "computeUniversalSet ns (collectImporters ns) ?types"
  let ?h5 = "fold (\<lambda>fp h. typesSet ?t fp ''universal'' h) ?U ?h4"
  have en: "?entries = getClientEntries ns"
    using assms(1) by (simp add: getClientEntries_h_def getClientEntries_def read_cell)
  note r1 = getClientReachable_h_refines[OF assms, of ?entries]
  have c1: "cells ?h1 a = (if a = ?cr then StringSet ?reach else cells h a)" for a
    using r1(2) en by simp
  have n1: "nextAddr ?h1 = ?t" by (rule r1(3))
  have a1: "cells ?h1 n = NodesMap ns" "n < nextAddr ?h1"
      "cells ?h1 ?cr = StringSet ?reach" "?cr < nextAddr ?h1"
    using assms by (simp_all add: c1 n1)
  note r2 = initNodeTypes_h_refines[OF a1]
  have c2: "cells ?h2 a = (if a = ?t then TypesMap (typeNames ?types) else cells ?h1 a)" for a
    using r2(2) n1 by simp
  have n2: "nextAddr ?h2 = ?i" using r2(3) n1 by simp
  have a2: "cells ?h2 n = NodesMap ns" "n < nextAddr ?h2"
    using assms by (simp_all add: c2 c1 n2)
  note r3 = collectImporters_h_refines[OF a2]
  have ok3: "importersOk ?h3 ?i" using r3(2) n2 by simp
  have s3: "importerSets ?h3 ?i = collectImporters ns" using r3(3) n2 by simp
  have c3: "cells ?h3 a = cells ?h2 a" if "a < ?i" for a
    using r3(4)[of a] that n2 by simp
  have n3: "?i < nextAddr ?h3" using r3(5) n2 by simp
  have a3: "cells ?h3 n = NodesMap ns" "n < nextAddr ?h3"
      "cells ?h3 ?t = TypesMap (typeNames ?types)" "?t < nextAddr ?h3"
    using assms n3 by (simp_all add: c3 c2 c1)
  note r4 = computeUniversalSet_h_refines[OF a3 ok3]
  have c4: "cells ?h4 a = (if a = ?u then StringSet ?U else cells ?h3 a)" for a
    using r4(2)[of a] s3 by simp
  have n4: "nextAddr ?h4 = Suc ?u" by (rule r4(3))
  have u4: "setAt ?h4 ?u = ?U" by (simp add: setAt_def c4)
  have t4: "cells ?h4 ?t = TypesMap (typeNames ?types)"
    using n3 a3(3) by (simp add: c4)
  note r5 = fold_typesSet_universal[OF t4, of ?U]
  have c5: "cells ?h5 a =
      (if a = ?t then TypesMap (typeNames (computeComponentTypes ns)) else cells ?h4 a)" for a
    using r5 by (simp add: computeComponentTypes_def Let_def)
  have n5: "nextAddr ?h5 = Suc ?u" using r5 n4 by simp
  have res: "computeComponentTypes_h n h = (?t, ?h5)"
    using r1(1) r2(1) r3(1) r4(1) n1 n2 u4
    by (simp add: computeComponentTypes_h_def Let_def split_beta)
  show "cells (snd (computeComponentTypes_h n h)) a = cells h a" if "a < nextAddr h"
    using that n3 by (simp add: res c5 c4 c3 c2 c1)
  show "nextAddr h \<le> fst (computeComponentTypes_h n h)" by (simp add: res)
  show "fst (computeComponentTypes_h n h) < nextAddr (snd (computeComponentTypes_h n h))"
    using n3 by (simp add: res n5)
  show "cells (snd (computeComponentTypes_h n h)) (fst (computeComponentTypes_h n h)) =
           TypesMap (typeNames (computeComponentTypes ns))"
    by (simp add: res c5)
qed

section \<open>Properties of the classifier\<close>

text \<open>
  C1 (fan-in universal promotion). In a store of exactly three nodes \<open>a\<close>, \<open>b\<close>, \<open>c\<close>,
  where \<open>a\<close> is client-marked and imports \<open>b\<close>, \<open>c\<close> is not client-marked and imports
  \<open>b\<close>, and \<open>b\<close> is not client-marked and imports nothing, \<open>computeComponentTypes\<close>
  types \<open>a\<close> client, \<open>c\<close> server and \<open>b\<close> universal, whatever the order of the nodes
  in the map and whatever their previous \<open>type\<close> fields.
\<close>

theorem fan_in_universal_promotion:
  assumes wf: "wf_store ns" and keys: "fst ` set ns = {a, b, c}"
    and na: "map_of ns a = Some na" "isClient na" "imports na = [b]"
    and nb: "map_of ns b = Some nb" "\<not> isClient nb" "imports nb = []"
    and nc: "map_of ns c = Some nc" "\<not> isClient nc" "imports nc = [b]"
  shows "map_of (computeComponentTypes ns) a = Some Client \<and>
         map_of (computeComponentTypes ns) c = Some Server \<and>
         map_of (computeComponentTypes ns) b = Some Universal"
proof -
  have ab: "a \<noteq> b" and ac: "a \<noteq> c" and bc: "b \<noteq> c"
    using na nb nc by auto
  have members: "(k, n) \<in> set ns \<longleftrightarrow> (k = a \<and> n = na) \<or> (k = b \<and> n = nb) \<or> (k = c \<and> n = nc)"
    for k n
  proof
    assume m: "(k, n) \<in> set ns"
    then have "k \<in> {a, b, c}" using keys by force
    moreover have "map_of ns k = Some n" using m wf wf_store_lookup by blast
    ultimately show "(k = a \<and> n = na) \<or> (k = b \<and> n = nb) \<or> (k = c \<and> n = nc)"
      using na(1) nb(1) nc(1) by auto
  next
    assume "(k = a \<and> n = na) \<or> (k = b \<and> n = nb) \<or> (k = c \<and> n = nc)"
    then show "(k, n) \<in> set ns"
      using na(1) nb(1) nc(1) by (auto dest: map_of_SomeD)
  qed
  have fa: "filePath na = a" using wf members wf_store_filePath by blast
  have entries: "set (getClientEntries ns) = {a}"
    unfolding set_getClientEntries using members na(2) nb(2) nc(2) fa by auto
  have hb: "has ns b" using nb(1) by (simp add: has_def)
  have sa: "succs ns a = {b}" using na hb by (auto simp: succs_def)
  have sb: "succs ns b = {}" using nb by (simp add: succs_def)
  have reach_sub: "y \<in> {a, b}" if "(a, y) \<in> (edges ns)\<^sup>*" for y
    using that
  proof (induction rule: rtrancl_induct)
    case base
    then show ?case by simp
  next
    case (step y z)
    then show ?case using sa sb by (auto simp: edges_def)
  qed
  have "(a, b) \<in> edges ns" using sa by (simp add: edges_def)
  then have rb: "b \<in> (edges ns)\<^sup>* `` {a}" by auto
  have rc: "c \<notin> (edges ns)\<^sup>* `` {a}" using reach_sub[of c] ac bc by auto
  have in_keys: "a \<in> fst ` set ns" "b \<in> fst ` set ns" "c \<in> fst ` set ns"
    using keys by auto
  have base_a: "map_of (baselineTypes ns) a = Some Client"
    and base_b: "map_of (baselineTypes ns) b = Some Client"
    and base_c: "map_of (baselineTypes ns) c = Some Server"
    using rb rc in_keys by (simp_all add: map_of_baselineTypes entries)
  have imp_b: "importers_of ns b = {a, c}"
    unfolding importers_of_def using members na(3) nb(3) nc(3) by auto
  have imp_c: "importers_of ns c = {}"
    unfolding importers_of_def using members na(3) nb(3) nc(3) bc by auto
  obtain frm where fb: "map_of (collectImporters ns) b = Some frm"
    using collectImporters_None[of ns b] imp_b by auto
  then have sfb: "set frm = {a, c}"
    using collectImporters_Some imp_b by blast
  have none_c: "map_of (collectImporters ns) c = None"
    using collectImporters_None imp_c by blast
  have "map_of (computeComponentTypes ns) a = Some Client"
    using computeComponentTypes_lookup[OF wf na(1)] na(2) base_a by simp
  moreover have "map_of (computeComponentTypes ns) c = Some Server"
    using computeComponentTypes_lookup[OF wf nc(1)] none_c base_c by simp
  moreover have "map_of (computeComponentTypes ns) b = Some Universal"
    using computeComponentTypes_lookup[OF wf nb(1)] nb(2) fb sfb base_a base_c by simp
  ultimately show ?thesis by simp
qed

theorem fan_in_universal_promotion_witness:
  "wf_store fanIn \<and> fst ` set fanIn = {''a.tsx'', ''b.tsx'', ''c.tsx''} \<and>
   map_of (computeComponentTypes fanIn) ''a.tsx'' = Some Client \<and>
   map_of (computeComponentTypes fanIn) ''c.tsx'' = Some Server \<and>
   map_of (computeComponentTypes fanIn) ''b.tsx'' = Some Universal"
proof -
  have wf: "wf_store fanIn" by (simp add: fanIn_def wf_store_def)
  have keys: "fst ` set fanIn = {''a.tsx'', ''b.tsx'', ''c.tsx''}"
    by (auto simp: fanIn_def)
  show ?thesis
    using wf keys
      fan_in_universal_promotion[OF wf keys,
        of "\<lparr>filePath = ''a.tsx'', isClient = True, imports = [''b.tsx''], type = None\<rparr>"
           "\<lparr>filePath = ''b.tsx'', isClient = False, imports = [], type = None\<rparr>"
           "\<lparr>filePath = ''c.tsx'', isClient = False, imports = [''b.tsx''], type = None\<rparr>"]
    by (simp add: fanIn_def)
qed

text \<open>
  C2 (promotion reads baseline types only). The final type of a node is universal
  exactly when the node is not client-marked and its importer set holds an importer
  whose baseline type is client and one whose baseline type is server; otherwise it is
  the node's baseline type. Baseline types are the result of steps 1 to 3 and are never
  universal, so no promotion depends on another promotion.
\<close>

theorem promotion_reads_baseline_types:
  assumes "wf_store ns" and "map_of ns fp = Some node"
  shows "map_of (computeComponentTypes ns) fp =
           (if \<not> isClient node \<and>
               (\<exists>from. map_of (collectImporters ns) fp = Some from \<and>
                  (\<exists>i\<in>set from. map_of (baselineTypes ns) i = Some Client) \<and>
                  (\<exists>j\<in>set from. map_of (baselineTypes ns) j = Some Server))
            then Some Universal else map_of (baselineTypes ns) fp)
         \<and> map_of (baselineTypes ns) k \<noteq> Some Universal"
  using computeComponentTypes_lookup[OF assms] by (simp add: map_of_baselineTypes)

theorem promotion_reads_baseline_types_witness:
  "wf_store cascade \<and>
   map_of cascade ''d.tsx'' =
     Some \<lparr>filePath = ''d.tsx'', isClient = False, imports = [], type = None\<rparr> \<and>
   map_of (collectImporters cascade) ''d.tsx'' = Some [''b.tsx'', ''s.tsx''] \<and>
   map_of (baselineTypes cascade) ''b.tsx'' = Some Client \<and>
   map_of (baselineTypes cascade) ''s.tsx'' = Some Server \<and>
   map_of (computeComponentTypes cascade) ''b.tsx'' = Some Universal \<and>
   map_of (computeComponentTypes cascade) ''d.tsx'' = Some Universal"
proof -
  have wf: "wf_store cascade" by (simp add: cascade_def wf_store_def)
  have look: "map_of cascade ''d.tsx'' =
     Some \<lparr>filePath = ''d.tsx'', isClient = False, imports = [], type = None\<rparr>"
    by (simp add: cascade_def)
  have ci: "map_of (collectImporters cascade) ''d.tsx'' = Some [''b.tsx'', ''s.tsx'']"
    by code_simp
  have bb: "map_of (baselineTypes cascade) ''b.tsx'' = Some Client" by code_simp
  have bs: "map_of (baselineTypes cascade) ''s.tsx'' = Some Server" by code_simp
  have ub: "map_of (computeComponentTypes cascade) ''b.tsx'' = Some Universal" by code_simp
  have "map_of (computeComponentTypes cascade) ''d.tsx'' = Some Universal"
    using promotion_reads_baseline_types[OF wf look, of "''d.tsx''"] ci bb bs by simp
  with wf look ci bb bs ub show ?thesis by simp
qed

text \<open>
  C3 (a client-marked file is never demoted). Every node with \<open>isClient = true\<close> is
  typed client, whichever nodes import it.
\<close>

theorem client_marked_stays_client:
  assumes "wf_store ns" and "map_of ns fp = Some node" and "isClient node"
  shows "map_of (computeComponentTypes ns) fp = Some Client"
proof -
  have mem: "(fp, node) \<in> set ns" using assms(2) by (rule map_of_SomeD)
  then have "filePath node = fp" using assms(1) wf_store_filePath by blast
  with mem assms(3) have "fp \<in> set (getClientEntries ns)"
    by (auto simp: set_getClientEntries)
  then have "fp \<in> (edges ns)\<^sup>* `` set (getClientEntries ns)" by auto
  moreover have "fp \<in> fst ` set ns" using mem by force
  ultimately have "map_of (baselineTypes ns) fp = Some Client"
    by (simp add: map_of_baselineTypes)
  then show ?thesis
    using computeComponentTypes_lookup[OF assms(1,2)] assms(3) by simp
qed

theorem client_marked_stays_client_witness:
  "wf_store mixedImporters \<and>
   map_of mixedImporters ''x.tsx'' =
     Some \<lparr>filePath = ''x.tsx'', isClient = True, imports = [], type = None\<rparr> \<and>
   map_of (computeComponentTypes mixedImporters) ''x.tsx'' = Some Client"
proof -
  have wf: "wf_store mixedImporters" by (simp add: mixedImporters_def wf_store_def)
  have look: "map_of mixedImporters ''x.tsx'' =
     Some \<lparr>filePath = ''x.tsx'', isClient = True, imports = [], type = None\<rparr>"
    by (simp add: mixedImporters_def)
  show ?thesis using wf look client_marked_stays_client[OF wf look] by simp
qed

text \<open>
  C4 (cycle safety). The traversal of \<open>getClientReachable\<close> terminates on every store,
  cyclic or not: \<open>visit\<close> and its loop over the imports are defined on every argument
  (the termination proof above: each call that walks an import list has marked a node
  that was not marked before). A path that is already marked is returned from at once,
  so no path is marked twice. In the store of two nodes that import each other, neither client-marked, the traversal
  started at one of them marks the two and stops, and both nodes are typed server.
\<close>

theorem cycle_safe_traversal:
  assumes "a \<noteq> b"
  shows "visit_visit_imports_dom (Inl (ns, fp, vis)) \<and>
         visit_visit_imports_dom (Inr (ns, imps, vis)) \<and>
         (fp \<in> set vis \<longrightarrow> visit ns fp vis = vis) \<and>
         distinct (getClientReachable ns entries) \<and>
         visit [(a, \<lparr>filePath = a, isClient = False, imports = [b], type = ta\<rparr>),
                (b, \<lparr>filePath = b, isClient = False, imports = [a], type = tb\<rparr>)] a [] = [a, b] \<and>
         computeComponentTypes
           [(a, \<lparr>filePath = a, isClient = False, imports = [b], type = ta\<rparr>),
            (b, \<lparr>filePath = b, isClient = False, imports = [a], type = tb\<rparr>)]
           = [(a, Server), (b, Server)]"
proof -
  have ba: "b \<noteq> a" using assms by simp
  have "visit_visit_imports_dom (Inl (ns, fp, vis))"
    and "visit_visit_imports_dom (Inr (ns, imps, vis))"
    using visit_total by auto
  moreover have "fp \<in> set vis \<longrightarrow> visit ns fp vis = vis"
    by (simp add: visit.simps)
  moreover have "distinct (getClientReachable ns entries)"
    by (rule getClientReachable_distinct)
  moreover have "visit [(a, \<lparr>filePath = a, isClient = False, imports = [b], type = ta\<rparr>),
                (b, \<lparr>filePath = b, isClient = False, imports = [a], type = tb\<rparr>)] a [] = [a, b]"
    using assms ba by (simp add: visit.simps has_def)
  moreover have "computeComponentTypes
           [(a, \<lparr>filePath = a, isClient = False, imports = [b], type = ta\<rparr>),
            (b, \<lparr>filePath = b, isClient = False, imports = [a], type = tb\<rparr>)]
           = [(a, Server), (b, Server)]"
    using assms ba
    by (simp add: computeComponentTypes_def getClientEntries_def getClientReachable_def
        initNodeTypes_def collectImporters_def addImporter_def has_def set_add_def
        computeUniversalSet_def isUniversalType_def Let_def)
  ultimately show ?thesis by simp
qed

theorem cycle_safe_traversal_witness:
  "''a.tsx'' \<noteq> ''b.tsx'' \<and>
   visit [(''a.tsx'', \<lparr>filePath = ''a.tsx'', isClient = False, imports = [''b.tsx''], type = None\<rparr>),
          (''b.tsx'', \<lparr>filePath = ''b.tsx'', isClient = False, imports = [''a.tsx''], type = None\<rparr>)]
     ''a.tsx'' [] = [''a.tsx'', ''b.tsx''] \<and>
   computeComponentTypes
     [(''a.tsx'', \<lparr>filePath = ''a.tsx'', isClient = False, imports = [''b.tsx''], type = None\<rparr>),
      (''b.tsx'', \<lparr>filePath = ''b.tsx'', isClient = False, imports = [''a.tsx''], type = None\<rparr>)]
     = [(''a.tsx'', Server), (''b.tsx'', Server)]"
proof -
  have ne: "''a.tsx'' \<noteq> ''b.tsx''" by simp
  show ?thesis
    using cycle_safe_traversal[OF ne, where ns = "[]" and fp = "''a.tsx''" and vis = "[]"
        and imps = "[]" and entries = "[]" and ta = None and tb = None]
    by simp
qed

text \<open>
  C5 (no mutation of the input, and a mapping that covers the store). The node store is
  an object of the store of objects, at address \<open>a\<close>. \<open>computeComponentTypes\<close> changes no
  object that exists when it is called: the map of nodes, its keys and every field of
  every node are after the call what they were before. The map it returns is a new
  object. Its keys are exactly the keys of the node store, in the same order, and every
  key is mapped to one of the strings \<^verbatim>\<open>"client"\<close>, \<^verbatim>\<open>"server"\<close> and \<^verbatim>\<open>"universal"\<close>: the
  returned map is the mapping that \<open>computeComponentTypes\<close> on values computes.
\<close>

theorem computeComponentTypes_does_not_mutate_and_covers:
  assumes "cells h a = NodesMap ns" and "a < nextAddr h" and "distinct (map fst ns)"
  shows "(\<forall>b<nextAddr h. cells (snd (computeComponentTypes_h a h)) b = cells h b) \<and>
         nodesAt (snd (computeComponentTypes_h a h)) a = ns \<and>
         nextAddr h \<le> fst (computeComponentTypes_h a h) \<and>
         map fst (typesAt (snd (computeComponentTypes_h a h)) (fst (computeComponentTypes_h a h)))
           = map fst ns \<and>
         (\<forall>fp\<in>set (map fst ns).
            map_of (typesAt (snd (computeComponentTypes_h a h)) (fst (computeComponentTypes_h a h))) fp
              \<in> {Some ''client'', Some ''server'', Some ''universal''}) \<and>
         typesAt (snd (computeComponentTypes_h a h)) (fst (computeComponentTypes_h a h))
           = typeNames (computeComponentTypes ns)"
proof -
  let ?h' = "snd (computeComponentTypes_h a h)"
  let ?t = "fst (computeComponentTypes_h a h)"
  note r = computeComponentTypes_h_refines[OF assms(1,2)]
  have frame: "\<forall>b<nextAddr h. cells ?h' b = cells h b" using r(1) by blast
  have "cells ?h' a = NodesMap ns" using r(1)[OF assms(2)] assms(1) by simp
  then have store: "nodesAt ?h' a = ns" by (rule read_cell)
  have ty: "typesAt ?h' ?t = typeNames (computeComponentTypes ns)"
    using r(4) by (rule read_cell)
  let ?types = "initNodeTypes ns (getClientReachable ns (getClientEntries ns))"
  let ?U = "computeUniversalSet ns (collectImporters ns) ?types"
  have k: "map fst ?types = map fst ns" using assms(3) by (rule keys_initNodeTypes)
  have "set ?U \<subseteq> fst ` set ns"
    by (force simp: in_computeUniversalSet)
  then have "set ?U \<subseteq> fst ` set ?types" using k by (metis list.set_map)
  from keys_fold_update_present[OF this, of "\<lambda>_. Universal"] k
  have keys: "map fst (computeComponentTypes ns) = map fst ns"
    by (simp add: computeComponentTypes_def Let_def)
  have keys': "map fst (typeNames (computeComponentTypes ns)) = map fst ns"
    using keys by (simp add: typeNames_def case_prod_unfold comp_def)
  have range: "map_of (typeNames (computeComponentTypes ns)) fp
        \<in> {Some ''client'', Some ''server'', Some ''universal''}"
    if "fp \<in> set (map fst ns)" for fp
  proof -
    have "fp \<in> fst ` set (computeComponentTypes ns)"
      using that keys by (metis list.set_map)
    then obtain t where "map_of (computeComponentTypes ns) fp = Some t"
      by (metis map_of_eq_None_iff not_Some_eq)
    then show ?thesis by (cases t) (simp_all add: map_of_typeNames)
  qed
  show ?thesis
    using frame store r(2) keys' range unfolding ty by blast
qed

theorem computeComponentTypes_does_not_mutate_and_covers_witness:
  "cells (new (NodesMap fanIn) emptyHeap) 0 = NodesMap fanIn \<and>
   0 < nextAddr (new (NodesMap fanIn) emptyHeap) \<and>
   distinct (map fst fanIn) \<and>
   fst (computeComponentTypes_h 0 (new (NodesMap fanIn) emptyHeap)) = 2 \<and>
   cells (snd (computeComponentTypes_h 0 (new (NodesMap fanIn) emptyHeap))) 0 = NodesMap fanIn \<and>
   nodesAt (snd (computeComponentTypes_h 0 (new (NodesMap fanIn) emptyHeap))) 0 = fanIn \<and>
   typesAt (snd (computeComponentTypes_h 0 (new (NodesMap fanIn) emptyHeap)))
     (fst (computeComponentTypes_h 0 (new (NodesMap fanIn) emptyHeap)))
     = [(''a.tsx'', ''client''), (''c.tsx'', ''server''), (''b.tsx'', ''universal'')]"
proof -
  let ?h = "new (NodesMap fanIn) emptyHeap"
  have h1: "cells ?h 0 = NodesMap fanIn" by (simp add: new_def put_def emptyHeap_def)
  have h2: "0 < nextAddr ?h" by (simp add: new_def put_def emptyHeap_def)
  have h3: "distinct (map fst fanIn)" by (simp add: fanIn_def)
  have t: "fst (computeComponentTypes_h 0 ?h) = 2" by code_simp
  have v: "typeNames (computeComponentTypes fanIn) =
      [(''a.tsx'', ''client''), (''c.tsx'', ''server''), (''b.tsx'', ''universal'')]"
    by code_simp
  show ?thesis
    using h1 h2 h3 t computeComponentTypes_does_not_mutate_and_covers[OF h1 h2 h3]
    unfolding v by simp
qed

section \<open>The steps of a build\<close>

lemma has_iff: "has m k \<longleftrightarrow> k \<in> fst ` set m"
  by (simp add: has_def map_of_eq_None_iff)

lemma keys_delete: "fst ` set (AList.delete k al) = fst ` set al - {k}"
  by (induction al) auto

lemma keys_update: "fst ` set (AList.update k v al) = insert k (fst ` set al)"
  by (induction al) auto

subsection \<open>What each operation does to the fields of the engine\<close>

lemma logCall_fields [simp]:
  "nodes (logCall c g) = nodes g" "project (logCall c g) = project g"
  "listeners (logCall c g) = listeners g" "calls (logCall c g) = calls g @ [c]"
  by (simp_all add: logCall_def)

lemma nodesDelete_fields [simp]:
  "nodes (nodesDelete fp g) = AList.delete fp (nodes g)"
  "project (nodesDelete fp g) = project g"
  "listeners (nodesDelete fp g) = listeners g"
  "calls (nodesDelete fp g) = calls g @ [NodesDelete fp]"
  by (simp_all add: nodesDelete_def)

lemma nodesSet_fields [simp]:
  "nodes (nodesSet fp n g) = AList.update fp n (nodes g)"
  "project (nodesSet fp n g) = project g"
  "listeners (nodesSet fp n g) = listeners g"
  "calls (nodesSet fp n g) = calls g @ [NodesSet fp]"
  by (simp_all add: nodesSet_def)

lemma removeSourceFile_fields [simp]:
  "nodes (removeSourceFile p g) = nodes g"
  "project (removeSourceFile p g) = AList.delete p (project g)"
  "listeners (removeSourceFile p g) = listeners g"
  "calls (removeSourceFile p g) = calls g @ [RemoveSourceFile p]"
  by (simp_all add: removeSourceFile_def)

lemma addSourceFilesAtPaths_fields [simp]:
  "nodes (addSourceFilesAtPaths w g) = nodes g"
  "listeners (addSourceFilesAtPaths w g) = listeners g"
  "calls (addSourceFilesAtPaths w g) = calls g @ [AddSourceFilesAtPaths]"
  by (simp_all add: addSourceFilesAtPaths_def Let_def)

lemma set_set_add: "set (set_add x s) = insert x (set s)"
  by (auto simp: set_add_def)

subsection \<open>refreshChangedFiles\<close>

text \<open>
  Handed an arrow function, the loop of \<^verbatim>\<open>refreshChangedFiles\<close> throws at the test of
  the first changed file, before it has touched the project, the node store or the set
  of affected files.
\<close>

lemma refreshChangedFiles_ArrowFunction:
  "refreshChangedFiles w (ArrowFunction f) (changed # rest) (g, a) =
     (Some (TypeError ''excludes.test is not a function''), g, a)"
  by (simp add: excludesTest_def)

subsection \<open>removeDeletedFiles\<close>

lemma removeDeletedFiles_fold: "removeDeletedFiles w g = fold (checkDeleted w) (project g) g"
  by (simp add: removeDeletedFiles_def checkDeleted_def)

lemma checkDeleted_fields:
  "fst ` set (project (checkDeleted w (p, sf) g)) =
     (if has (disk w) p then fst ` set (project g) else fst ` set (project g) - {p})"
  "fst ` set (nodes (checkDeleted w (p, sf) g)) =
     (if has (disk w) p then fst ` set (nodes g) else fst ` set (nodes g) - {p})"
  "listeners (checkDeleted w (p, sf) g) = listeners g"
  "calls (checkDeleted w (p, sf) g) =
     calls g @ (if has (disk w) p then [ExistsSync p]
                else [ExistsSync p, NodesDelete p, RemoveSourceFile p])"
  by (simp_all add: checkDeleted_def Let_def keys_delete)

lemma fold_checkDeleted:
  "fst ` set (project (fold (checkDeleted w) l g)) =
     fst ` set (project g) - {p \<in> fst ` set l. \<not> has (disk w) p}"
  "fst ` set (nodes (fold (checkDeleted w) l g)) =
     fst ` set (nodes g) - {p \<in> fst ` set l. \<not> has (disk w) p}"
  "listeners (fold (checkDeleted w) l g) = listeners g"
proof (induction l arbitrary: g)
  case Nil
  { case 1 show ?case by simp }
  { case 2 show ?case by simp }
  { case 3 show ?case by simp }
next
  case (Cons x l)
  obtain p sf where x: "x = (p, sf)" by (cases x)
  { case 1 show ?case unfolding x by (auto simp: Cons.IH checkDeleted_fields) }
  { case 2 show ?case unfolding x by (auto simp: Cons.IH checkDeleted_fields) }
  { case 3 show ?case unfolding x by (simp add: Cons.IH checkDeleted_fields) }
qed

lemma removeDeletedFiles_project:
  "fst ` set (project (removeDeletedFiles w g)) = fst ` set (project g) \<inter> fst ` set (disk w)"
  unfolding removeDeletedFiles_fold fold_checkDeleted by (auto simp: has_iff)

lemma removeDeletedFiles_nodes:
  "fst ` set (nodes (removeDeletedFiles w g)) =
     fst ` set (nodes g) - {p \<in> fst ` set (project g). \<not> has (disk w) p}"
  unfolding removeDeletedFiles_fold fold_checkDeleted by simp

lemma removeDeletedFiles_listeners: "listeners (removeDeletedFiles w g) = listeners g"
  unfolding removeDeletedFiles_fold fold_checkDeleted by simp

subsection \<open>addAllSourceFiles, markAllFilesAsAffected\<close>

lemma addMatching_keys:
  "fst ` set (addMatching w (p, sf) proj) =
     (if globMatches w p then insert p (fst ` set proj) else fst ` set proj)"
  by (auto simp: addMatching_def keys_update has_iff)

lemma fold_addMatching:
  "fst ` set (fold (addMatching w) d proj) = fst ` set proj \<union> {p \<in> fst ` set d. globMatches w p}"
proof (induction d arbitrary: proj)
  case Nil
  then show ?case by simp
next
  case (Cons x d)
  obtain p sf where x: "x = (p, sf)" by (cases x)
  show ?case unfolding x by (auto simp: Cons.IH addMatching_keys)
qed

lemma addSourceFilesAtPaths_project:
  "project (addSourceFilesAtPaths w g) = fold (addMatching w) (disk w) (project g)"
  by (simp add: addSourceFilesAtPaths_def Let_def addMatching_def)

lemma addAllSourceFiles_fields:
  "fst ` set (project (addAllSourceFiles w g)) =
     fst ` set (project g) \<union> {p \<in> fst ` set (disk w). globMatches w p}"
  "nodes (addAllSourceFiles w g) = nodes g"
  "listeners (addAllSourceFiles w g) = listeners g"
  "calls (addAllSourceFiles w g) = calls g @ [AddSourceFilesAtPaths]"
  by (simp_all add: addAllSourceFiles_def addSourceFilesAtPaths_project fold_addMatching)

lemma fold_set_add:
  "set (fold (\<lambda>(p, sf) affectedFiles. set_add p affectedFiles) l a) = set a \<union> fst ` set l"
proof (induction l arbitrary: a)
  case Nil
  then show ?case by simp
next
  case (Cons x l)
  obtain p sf where x: "x = (p, sf)" by (cases x)
  show ?case unfolding x by (auto simp: Cons.IH set_set_add)
qed

lemma markAllFilesAsAffected_set:
  "set (markAllFilesAsAffected g a) = set a \<union> fst ` set (project g)"
  by (simp add: markAllFilesAsAffected_def fold_set_add)

subsection \<open>updateFileNodes\<close>

lemma updateFileNodes_fold: "updateFileNodes fs g = fold updateFileNode fs g"
  by (simp add: updateFileNodes_def updateFileNode_def[abs_def])

lemma updateFileNode_fields:
  "project (updateFileNode fp g) = project g"
  "listeners (updateFileNode fp g) = listeners g"
  "fst ` set (nodes (updateFileNode fp g)) =
     (if has (project g) fp then insert fp (fst ` set (nodes g)) else fst ` set (nodes g) - {fp})"
  "calls (updateFileNode fp g) = calls g @ [if has (project g) fp then NodesSet fp else NodesDelete fp]"
  by (simp_all add: updateFileNode_def has_def keys_update keys_delete split: option.splits)

lemma fold_updateFileNode_project: "project (fold updateFileNode fs g) = project g"
  by (induction fs arbitrary: g) (simp_all add: updateFileNode_fields)

lemma fold_updateFileNode_listeners: "listeners (fold updateFileNode fs g) = listeners g"
  by (induction fs arbitrary: g) (simp_all add: updateFileNode_fields)

lemma fold_updateFileNode_nodes:
  "p \<in> fst ` set (nodes (fold updateFileNode fs g)) \<longleftrightarrow>
     (if p \<in> set fs then has (project g) p else p \<in> fst ` set (nodes g))"
proof (induction fs arbitrary: g)
  case Nil
  then show ?case by simp
next
  case (Cons q fs)
  show ?case
    by (auto simp: Cons.IH updateFileNode_fields)
qed

lemma updateFileNodes_nodes:
  "p \<in> fst ` set (nodes (updateFileNodes fs g)) \<longleftrightarrow>
     (if p \<in> set fs then has (project g) p else p \<in> fst ` set (nodes g))"
  unfolding updateFileNodes_fold by (rule fold_updateFileNode_nodes)

lemma updateFileNodes_fields:
  "project (updateFileNodes fs g) = project g"
  "listeners (updateFileNodes fs g) = listeners g"
  by (simp_all add: updateFileNodes_fold fold_updateFileNode_project
      fold_updateFileNode_listeners)

text \<open>When every file to update is in the project, every node is set and none deleted.\<close>

lemma fold_updateFileNode_calls:
  "set fs \<subseteq> fst ` set (project g) \<Longrightarrow>
     calls (fold updateFileNode fs g) = calls g @ map NodesSet fs"
proof (induction fs arbitrary: g)
  case Nil
  then show ?case by simp
next
  case (Cons q fs)
  have q: "has (project g) q" using Cons.prems by (simp add: has_iff)
  have "set fs \<subseteq> fst ` set (project (updateFileNode q g))"
    using Cons.prems by (simp add: updateFileNode_fields)
  from Cons.IH[OF this] q show ?case by (simp add: updateFileNode_fields)
qed

subsection \<open>emit\<close>

lemma emit_fields:
  "nodes (snd (emit ls i g)) = nodes g"
  "project (snd (emit ls i g)) = project g"
  "listeners (snd (emit ls i g)) = listeners g"
  by (induction ls i g rule: emit.induct; simp add: Let_def split: Listener.splits)+

lemma emit_returns:
  "list_all (\<lambda>l. l = Returns) ls \<Longrightarrow>
     fst (emit ls i g) = None \<and>
     calls (snd (emit ls i g)) = calls g @ map ListenerCalled [i ..< i + length ls]"
proof (induction ls arbitrary: i g)
  case Nil
  then show ?case by simp
next
  case (Cons l ls)
  then have l: "l = Returns" and rest: "list_all (\<lambda>l. l = Returns) ls" by auto
  have "[i ..< i + length (l # ls)] = i # [Suc i ..< i + length (l # ls)]"
    by (rule upt_conv_Cons) simp
  then have "[i ..< i + length (l # ls)] = i # [Suc i ..< Suc i + length ls]"
    by (simp del: upt_Suc)
  then show ?case
    using Cons.IH[OF rest, of "Suc i" "logCall (ListenerCalled i) g"]
    by (simp add: l Let_def del: upt_Suc)
qed

lemma emit_throw:
  "list_all (\<lambda>l. l = Returns) ls1 \<Longrightarrow>
     fst (emit (ls1 @ Throws e # ls2) i g) = Some (Thrown e) \<and>
     calls (snd (emit (ls1 @ Throws e # ls2) i g)) =
       calls g @ map ListenerCalled [i ..< Suc (i + length ls1)]"
proof (induction ls1 arbitrary: i g)
  case Nil
  then show ?case by (simp add: Let_def)
next
  case (Cons l ls1)
  then have l: "l = Returns" and rest: "list_all (\<lambda>l. l = Returns) ls1" by auto
  have "[i ..< Suc (i + length (l # ls1))] = i # [Suc i ..< Suc (i + length (l # ls1))]"
    by (rule upt_conv_Cons) simp
  then have "[i ..< Suc (i + length (l # ls1))] = i # [Suc i ..< Suc (Suc i + length ls1)]"
    by (simp del: upt_Suc)
  then show ?case
    using Cons.IH[OF rest, of "Suc i" "logCall (ListenerCalled i) g"]
    by (simp add: l Let_def del: upt_Suc)
qed


subsection \<open>build\<close>

lemma keys_typed:
  "fst ` set (map (\<lambda>(fp, node). case map_of types fp of
                      None \<Rightarrow> (fp, node)
                    | Some t \<Rightarrow> (fp, node\<lparr>type := Some t\<rparr>)) l) = fst ` set l"
  by (induction l) (auto split: option.splits)

lemma typed_fields:
  "fst ` set (nodes (typed g)) = fst ` set (nodes g)"
  "project (typed g) = project g" "listeners (typed g) = listeners g" "calls (typed g) = calls g"
proof -
  show "fst ` set (nodes (typed g)) = fst ` set (nodes g)"
    using keys_typed[of "computeComponentTypes (nodes g)" "nodes g"] by (simp add: typed_def)
qed (simp_all add: typed_def)

text \<open>
  The two modes of \<^verbatim>\<open>updateProjectSourceFiles\<close>. With changed files, the deletion pass
  runs and the \<^verbatim>\<open>TypeError\<close> of \<^verbatim>\<open>refreshChangedFiles\<close> leaves the method. Without, the
  full scan returns every file of the project.
\<close>

lemma updateProjectSourceFiles_incremental:
  "cf \<noteq> [] \<Longrightarrow> updateProjectSourceFiles w (Some cf) g =
     (Inl (TypeError ''excludes.test is not a function''), removeDeletedFiles w g)"
  by (cases cf) (simp_all add: updateProjectSourceFiles_def Let_def excludesTest_def)

lemma updateProjectSourceFiles_full:
  "cf = None \<or> cf = Some [] \<Longrightarrow> updateProjectSourceFiles w cf g =
     (Inr (markAllFilesAsAffected (addAllSourceFiles w (removeDeletedFiles w g)) []),
      addAllSourceFiles w (removeDeletedFiles w g))"
  by (auto simp: updateProjectSourceFiles_def Let_def)

lemma updateProjectSourceFiles_Inr:
  "fst (updateProjectSourceFiles w cf g) = Inr fs \<longleftrightarrow>
     (cf = None \<or> cf = Some []) \<and>
     fs = markAllFilesAsAffected (addAllSourceFiles w (removeDeletedFiles w g)) []"
proof (cases "cf = None \<or> cf = Some []")
  case True
  then show ?thesis by (auto simp: updateProjectSourceFiles_full)
next
  case False
  then obtain c where "cf = Some c" "c \<noteq> []" by auto
  then show ?thesis by (simp add: updateProjectSourceFiles_incremental)
qed

lemma build_incremental:
  "cf \<noteq> [] \<Longrightarrow> build w (Some cf) g =
     (Some (TypeError ''excludes.test is not a function''), removeDeletedFiles w g)"
  by (simp add: build_def updateProjectSourceFiles_incremental)

lemma build_full:
  "cf = None \<or> cf = Some [] \<Longrightarrow> build w cf g =
     emit (listeners g) 0
       (typed (updateFileNodes
                 (markAllFilesAsAffected (addAllSourceFiles w (removeDeletedFiles w g)) [])
                 (addAllSourceFiles w (removeDeletedFiles w g))))"
  by (simp add: build_def updateProjectSourceFiles_full fireDidUpdate_def typed_def Let_def
      updateFileNodes_fields addAllSourceFiles_fields removeDeletedFiles_listeners)

lemma full_scan_nodes:
  assumes "cf = None \<or> cf = Some []"
  shows "fst ` set (nodes (snd (build w cf g))) =
           (fst ` set (project g) \<inter> fst ` set (disk w)) \<union>
           {p \<in> fst ` set (disk w). globMatches w p} \<union>
           (fst ` set (nodes g) - fst ` set (project g))"
proof -
  let ?g2 = "addAllSourceFiles w (removeDeletedFiles w g)"
  have "p \<in> fst ` set (nodes (snd (build w cf g))) \<longleftrightarrow>
          p \<in> (fst ` set (project g) \<inter> fst ` set (disk w)) \<union>
           {p \<in> fst ` set (disk w). globMatches w p} \<union>
           (fst ` set (nodes g) - fst ` set (project g))" for p
    unfolding build_full[OF assms] emit_fields typed_fields updateFileNodes_nodes
      markAllFilesAsAffected_set has_iff[of "project ?g2"] addAllSourceFiles_fields
      removeDeletedFiles_project removeDeletedFiles_nodes
    by (auto simp: has_iff)
  then show ?thesis by blast
qed


text \<open>
  A full scan makes a node of every file of the project that exists on disk, whether
  the exclusion patterns match it or not.
\<close>

lemma full_scan_keeps_tracked_files:
  assumes "cf = None \<or> cf = Some []" and "has (project g) p" and "has (disk w) p"
  shows "has (nodes (snd (build w cf g))) p"
  using full_scan_nodes[OF assms(1), of w g] assms(2,3) by (auto simp: has_iff)

subsection \<open>The calls of a build\<close>


lemma fold_checkDeleted_calls:
  "calls (fold (checkDeleted w) l g) = calls g @ deletionPassCalls w l"
proof (induction l arbitrary: g)
  case Nil
  then show ?case by (simp add: deletionPassCalls_def)
next
  case (Cons x l)
  obtain p sf where x: "x = (p, sf)" by (cases x)
  show ?case unfolding x
    by (simp add: Cons.IH checkDeleted_fields deletionPassCalls_def)
qed

lemma removeDeletedFiles_calls:
  "calls (removeDeletedFiles w g) = calls g @ deletionPassCalls w (project g)"
  by (simp add: removeDeletedFiles_fold fold_checkDeleted_calls)

lemma deletionPassCalls_props:
  "list_all isDeletionPassCall (deletionPassCalls w l)"
  "list_all (\<lambda>c. \<not> isAddOrRefresh c) (deletionPassCalls w l)"
  "list_all (\<lambda>c. \<not> isNodesSet c) (deletionPassCalls w l)"
  "list_all (\<lambda>c. \<not> isListenerCalled c) (deletionPassCalls w l)"
  "count_list (deletionPassCalls w l) (ExistsSync p) = count_list (map fst l) p"
  by (induction l; auto simp: deletionPassCalls_def)+




subsection \<open>The node store of the engine stays well-formed\<close>

lemma wf_store_delete:
  assumes "wf_store ns"
  shows "wf_store (AList.delete k ns)"
proof -
  have "distinct (map fst (AList.delete k ns))"
    using assms by (simp add: wf_store_def distinct_delete)
  moreover have "set (AList.delete k ns) \<subseteq> set ns"
    by (auto simp: AList.delete_eq)
  ultimately show ?thesis
    using assms unfolding wf_store_def list_all_iff by blast
qed

lemma wf_store_update:
  assumes "wf_store ns" and "filePath n = k"
  shows "wf_store (AList.update k n ns)"
proof -
  have "distinct (map fst (AList.update k n ns))"
    using assms(1) by (simp add: wf_store_def distinct_update)
  moreover have "set (AList.update k n ns) \<subseteq> insert (k, n) (set ns)"
    by (induction ns) auto
  ultimately show ?thesis
    using assms unfolding wf_store_def list_all_iff by blast
qed

lemma map_fst_typed:
  "map fst (map (\<lambda>(fp, node). case map_of types fp of
                      None \<Rightarrow> (fp, node)
                    | Some t \<Rightarrow> (fp, node\<lparr>type := Some t\<rparr>)) l) = map fst l"
  by (induction l) (auto split: option.splits)

lemma wf_store_typed:
  assumes "wf_store (nodes g)"
  shows "wf_store (nodes (typed g))"
proof -
  let ?f = "\<lambda>(fp, node). case map_of (computeComponentTypes (nodes g)) fp of
                      None \<Rightarrow> (fp, node)
                    | Some t \<Rightarrow> (fp, node\<lparr>type := Some t\<rparr>)"
  have n: "nodes (typed g) = map ?f (nodes g)" by (simp add: typed_def)
  have "distinct (map fst (map ?f (nodes g)))"
    using assms unfolding map_fst_typed by (simp add: wf_store_def)
  moreover have "list_all (\<lambda>(fp, node). filePath node = fp) (map ?f (nodes g))"
    using assms by (auto simp: wf_store_def list_all_iff split: option.splits)
  ultimately show ?thesis unfolding n wf_store_def by simp
qed

lemma wf_store_fold_checkDeleted:
  "wf_store (nodes g) \<Longrightarrow> wf_store (nodes (fold (checkDeleted w) l g))"
proof (induction l arbitrary: g)
  case Nil
  then show ?case by simp
next
  case (Cons x l)
  obtain p sf where x: "x = (p, sf)" by (cases x)
  have "wf_store (nodes (checkDeleted w (p, sf) g))"
    using Cons.prems by (simp add: checkDeleted_def Let_def wf_store_delete)
  from Cons.IH[OF this] show ?case by (simp add: x)
qed

lemma wf_store_fold_updateFileNode:
  "wf_store (nodes g) \<Longrightarrow> wf_store (nodes (fold updateFileNode fs g))"
proof (induction fs arbitrary: g)
  case Nil
  then show ?case by simp
next
  case (Cons q fs)
  have "wf_store (nodes (updateFileNode q g))"
    using Cons.prems
    by (auto simp: updateFileNode_def wf_store_delete wf_store_update split: option.splits)
  from Cons.IH[OF this] show ?case by simp
qed

lemma build_wf_store:
  assumes "wf_store (nodes g)"
  shows "wf_store (nodes (snd (build w cf g)))"
proof -
  have 1: "wf_store (nodes (removeDeletedFiles w g))"
    using assms by (simp add: removeDeletedFiles_fold wf_store_fold_checkDeleted)
  show ?thesis
  proof (cases "cf = None \<or> cf = Some []")
    case True
    have "wf_store (nodes (addAllSourceFiles w (removeDeletedFiles w g)))"
      using 1 by (simp add: addAllSourceFiles_fields)
    then show ?thesis
      unfolding build_full[OF True] emit_fields updateFileNodes_fold
      by (intro wf_store_typed wf_store_fold_updateFileNode)
  next
    case False
    then obtain c where c: "cf = Some c" "c \<noteq> []" by auto
    show ?thesis using 1 by (simp add: c build_incremental)
  qed
qed

section \<open>Properties of the engine\<close>




text \<open>
  C7 (exclusion is absolute): a path that matches an exclusion pattern never is a key of
  the node store. The engine of index.ts breaks it for a file that exists when the engine
  is constructed: the project loads \<open>a.stories.tsx\<close> from the tsconfig, the full scan
  marks every file of the project as affected, and \<^verbatim>\<open>updateFileNodes\<close> has no exclusion
  test. The story file becomes a node and, as a server importer, turns \<open>a.tsx\<close> universal.
\<close>

theorem excluded_file_of_tsconfig_becomes_node:
  "excludes storiesWorld ''/proj/a.stories.tsx'' \<and>
   \<not> globMatches storiesWorld ''/proj/a.stories.tsx'' \<and>
   map fst (nodes (snd (build storiesWorld None (newComponentEnvGraph (disk storiesWorld))))) =
     [''/proj/Parent.tsx'', ''/proj/a.tsx'', ''/proj/a.stories.tsx''] \<and>
   typeOfImporter (nodes (snd (build storiesWorld None (newComponentEnvGraph (disk storiesWorld)))))
     ''/proj/a.tsx'' = Some Universal"
  by code_simp

text \<open>
  C8 (deletion through \<^verbatim>\<open>changedFiles\<close>): a tracked file is removed from disk and its
  path is passed in \<^verbatim>\<open>changedFiles\<close>; the path is added to the affected set although it
  cannot be registered, and it has no node when \<^verbatim>\<open>build()\<close> has completed. The engine
  of index.ts does not get there. \<^verbatim>\<open>gone.tsx\<close> is tracked, is not on disk and is not
  excluded; \<^verbatim>\<open>build(["/proj/gone.tsx"])\<close> runs the deletion pass and then throws the
  \<^verbatim>\<open>TypeError\<close> of \<^verbatim>\<open>excludes.test\<close>: \<^verbatim>\<open>updateProjectSourceFiles\<close> returns no affected
  set, \<^verbatim>\<open>addSourceFileAtPath\<close> is not called, no node is updated, and the build does
  not complete. Handed a regular expression, as files.ts declares its parameter,
  \<^verbatim>\<open>refreshChangedFiles\<close> does add the path to the affected set.
\<close>

theorem changed_file_refresh_throws:
  "has (nodes staleGraph) ''/proj/gone.tsx'' \<and> has (project staleGraph) ''/proj/gone.tsx'' \<and>
   \<not> has (disk staleWorld) ''/proj/gone.tsx'' \<and> \<not> excludes staleWorld ''/proj/gone.tsx'' \<and>
   fst (updateProjectSourceFiles staleWorld (Some [''/proj/gone.tsx'']) staleGraph) =
     Inl (TypeError ''excludes.test is not a function'') \<and>
   fst (build staleWorld (Some [''/proj/gone.tsx'']) staleGraph) =
     Some (TypeError ''excludes.test is not a function'') \<and>
   buildCalls staleWorld (Some [''/proj/gone.tsx'']) staleGraph =
     [ExistsSync ''/proj/a.tsx'', ExistsSync ''/proj/gone.tsx'', NodesDelete ''/proj/gone.tsx'',
      RemoveSourceFile ''/proj/gone.tsx''] \<and>
   snd (snd (refreshChangedFiles staleWorld (RegExp (excludes staleWorld)) [''/proj/gone.tsx'']
               (removeDeletedFiles staleWorld staleGraph, []))) = [''/proj/gone.tsx'']"
  by code_simp

text \<open>
  C9 (listener exceptions), as the engine has it, for a \<^verbatim>\<open>build()\<close> whose graph update
  completes. Nothing isolates a listener. When no listener throws, every listener is
  called once, in the order of registration, and \<^verbatim>\<open>build()\<close> returns normally. When a
  listener throws, the listeners registered before it have been called, its exception
  leaves \<^verbatim>\<open>build()\<close>, and the listeners registered after it are not called.
\<close>

theorem listener_exception_leaves_build:
  assumes "fst (updateProjectSourceFiles w cf g) = Inr filesToUpdate"
  shows "(list_all (\<lambda>l. l = Returns) (listeners g) \<longrightarrow>
            fst (build w cf g) = None \<and>
            filter isListenerCalled (buildCalls w cf g) =
              map ListenerCalled [0 ..< length (listeners g)]) \<and>
         (listeners g = ls1 @ Throws e # ls2 \<and> list_all (\<lambda>l. l = Returns) ls1 \<longrightarrow>
            fst (build w cf g) = Some (Thrown e) \<and>
            filter isListenerCalled (buildCalls w cf g) =
              map ListenerCalled [0 ..< Suc (length ls1)])"
proof -
  let ?g2 = "addAllSourceFiles w (removeDeletedFiles w g)"
  let ?fs = "markAllFilesAsAffected ?g2 []"
  let ?g3 = "typed (updateFileNodes ?fs ?g2)"
  have full: "cf = None \<or> cf = Some []"
    using assms by (simp add: updateProjectSourceFiles_Inr)
  have sub: "set ?fs \<subseteq> fst ` set (project ?g2)"
    by (simp add: markAllFilesAsAffected_set)
  have c3: "calls ?g3 =
      calls g @ deletionPassCalls w (project g) @ [AddSourceFilesAtPaths] @ map NodesSet ?fs"
    unfolding typed_fields updateFileNodes_fold fold_updateFileNode_calls[OF sub]
    by (simp add: addAllSourceFiles_fields removeDeletedFiles_calls)
  have f1: "filter isListenerCalled (deletionPassCalls w (project g)) = []"
    using deletionPassCalls_props(4)[of w "project g"]
    by (simp add: list_all_iff filter_empty_conv)
  have f2: "filter isListenerCalled (map NodesSet ?fs) = []"
    by (simp add: filter_empty_conv)
  have f3: "filter isListenerCalled (map ListenerCalled is) = map ListenerCalled is" for "is"
    by (simp add: filter_map comp_def)
  have pre: "filter isListenerCalled (buildCalls w cf g) = map ListenerCalled is"
    if "calls (snd (emit (listeners g) 0 ?g3)) = calls ?g3 @ map ListenerCalled is" for "is"
    using that by (simp add: buildCalls_def build_full[OF full] c3 f1 f2 f3)
  have r: "fst (build w cf g) = None \<and>
      filter isListenerCalled (buildCalls w cf g) = map ListenerCalled [0 ..< length (listeners g)]"
    if "list_all (\<lambda>l. l = Returns) (listeners g)"
    using emit_returns[OF that, of 0 ?g3] pre[of "[0 ..< length (listeners g)]"]
    by (simp add: build_full[OF full])
  have t: "fst (build w cf g) = Some (Thrown e) \<and>
      filter isListenerCalled (buildCalls w cf g) = map ListenerCalled [0 ..< Suc (length ls1)]"
    if ls: "listeners g = ls1 @ Throws e # ls2" and r1: "list_all (\<lambda>l. l = Returns) ls1"
    using emit_throw[OF r1, of e ls2 0 ?g3] pre[of "[0 ..< Suc (length ls1)]"] ls
    by (simp add: build_full[OF full])
  from r t show ?thesis by blast
qed

theorem listener_exception_leaves_build_witness:
  "fst (updateProjectSourceFiles staleWorld None
          (onDidUpdate Returns (onDidUpdate (Throws ''boom'') (onDidUpdate Returns staleGraph))))
     = Inr [''/proj/a.tsx''] \<and>
   listeners (onDidUpdate Returns (onDidUpdate (Throws ''boom'') (onDidUpdate Returns staleGraph)))
     = [Returns] @ Throws ''boom'' # [Returns] \<and>
   list_all (\<lambda>l. l = Returns) [Returns] \<and>
   fst (build staleWorld None
          (onDidUpdate Returns (onDidUpdate (Throws ''boom'') (onDidUpdate Returns staleGraph))))
     = Some (Thrown ''boom'') \<and>
   filter isListenerCalled
     (buildCalls staleWorld None
        (onDidUpdate Returns (onDidUpdate (Throws ''boom'') (onDidUpdate Returns staleGraph))))
     = [ListenerCalled 0, ListenerCalled 1] \<and>
   fst (updateProjectSourceFiles staleWorld None (onDidUpdate Returns (onDidUpdate Returns staleGraph)))
     = Inr [''/proj/a.tsx''] \<and>
   list_all (\<lambda>l. l = Returns) (listeners (onDidUpdate Returns (onDidUpdate Returns staleGraph))) \<and>
   fst (build staleWorld None (onDidUpdate Returns (onDidUpdate Returns staleGraph))) = None \<and>
   filter isListenerCalled
     (buildCalls staleWorld None (onDidUpdate Returns (onDidUpdate Returns staleGraph)))
     = [ListenerCalled 0, ListenerCalled 1]"
proof -
  let ?g = "onDidUpdate Returns (onDidUpdate (Throws ''boom'') (onDidUpdate Returns staleGraph))"
  let ?r = "onDidUpdate Returns (onDidUpdate Returns staleGraph)"
  have h0: "fst (updateProjectSourceFiles staleWorld None ?g) = Inr [''/proj/a.tsx'']"
    by code_simp
  have h1: "listeners ?g = [Returns] @ Throws ''boom'' # [Returns]"
    by (simp add: onDidUpdate_def staleGraph_def)
  have h2: "list_all (\<lambda>l. l = Returns) [Returns]" by simp
  have u: "map ListenerCalled [0 ..< Suc (length [Returns])] = [ListenerCalled 0, ListenerCalled 1]"
    by (simp add: upt_rec)
  have k0: "fst (updateProjectSourceFiles staleWorld None ?r) = Inr [''/proj/a.tsx'']"
    by code_simp
  have k1: "listeners ?r = [Returns, Returns]"
    by (simp add: onDidUpdate_def staleGraph_def)
  have k2: "list_all (\<lambda>l. l = Returns) (listeners ?r)" by (simp add: k1)
  have ku: "map ListenerCalled [0 ..< length (listeners ?r)] = [ListenerCalled 0, ListenerCalled 1]"
    by (simp add: k1 upt_rec)
  have t: "fst (build staleWorld None ?g) = Some (Thrown ''boom'') \<and>
      filter isListenerCalled (buildCalls staleWorld None ?g) = [ListenerCalled 0, ListenerCalled 1]"
    using h1 h2 u
      listener_exception_leaves_build[OF h0, of "[Returns]" "''boom''" "[Returns]"]
    by simp
  have r: "fst (build staleWorld None ?r) = None \<and>
      filter isListenerCalled (buildCalls staleWorld None ?r) = [ListenerCalled 0, ListenerCalled 1]"
    using k2 listener_exception_leaves_build[OF k0, of "[]" "''x''" "[]"]
    unfolding ku by simp
  show ?thesis using h0 h1 h2 k0 k2 t r by simp
qed

text \<open>
  C9 as it is stated, with the exception of a listener kept inside and the other
  listeners still served, fails: in the full scan below the graph update completes, the
  exception of the first listener leaves \<^verbatim>\<open>build()\<close> and the second listener is never
  called.
\<close>

theorem listener_exception_isolated_counterexample:
  "fst (updateProjectSourceFiles staleWorld None
          (onDidUpdate Returns (onDidUpdate (Throws ''boom'') staleGraph)))
     = Inr [''/proj/a.tsx''] \<and>
   fst (build staleWorld None (onDidUpdate Returns (onDidUpdate (Throws ''boom'') staleGraph)))
     = Some (Thrown ''boom'') \<and>
   filter isListenerCalled
     (buildCalls staleWorld None (onDidUpdate Returns (onDidUpdate (Throws ''boom'') staleGraph)))
     = [ListenerCalled 0]"
  by code_simp

section \<open>The historical in-place classifier against the pure one\<close>

text \<open>
  C10 (the in-place \<open>classifyComponentTypes\<close> and \<open>computeComponentTypes\<close> give the
  same types). On the store \<open>cascade\<close> they do not: the in-place method promotes
  \<open>b.tsx\<close> to universal first and then reads that written type when it comes to
  \<open>d.tsx\<close>, finds no client importer and leaves \<open>d.tsx\<close> client, while the pure
  classifier reads the baseline types and promotes \<open>d.tsx\<close> as well. What the in-place
  method answers depends on the order of the map: with the same nodes in the reverse
  order it reaches \<open>d.tsx\<close> before \<open>b.tsx\<close> and promotes both.
\<close>

theorem inplace_classifier_differs_on_cascade:
  "wf_store cascade \<and>
   map_of (computeComponentTypes cascade) ''d.tsx'' = Some Universal \<and>
   typeOfImporter (classifyComponentTypes cascade) ''d.tsx'' = Some Client \<and>
   typeOfImporter (classifyComponentTypes (rev cascade)) ''d.tsx'' = Some Universal"
proof -
  have "wf_store cascade" by (simp add: cascade_def wf_store_def)
  moreover have "map_of (computeComponentTypes cascade) ''d.tsx'' = Some Universal"
    by code_simp
  moreover have "typeOfImporter (classifyComponentTypes cascade) ''d.tsx'' = Some Client"
    by code_simp
  moreover have "typeOfImporter (classifyComponentTypes (rev cascade)) ''d.tsx'' = Some Universal"
    by code_simp
  ultimately show ?thesis by simp
qed

end
